theory Spec2Isabelle
  imports Main "HOL-Library.AList"
begin

unbundle bit_operations_syntax

section \<open>Data model\<close>

text \<open>
  Event identifiers are Python strings. Of an event the script reads its identifier, its
  type and the ordered list of its auth event identifiers.
\<close>

type_synonym event_id = string

record EventBase =
  event_id :: event_id
  event_type :: string
  auth_event_ids :: "event_id list"

text \<open>
  The events table of the main datastore: a finite table from event identifier to event.
  \<open>get_event\<close> is the lookup \<^verbatim>\<open>get_event(eid, allow_none=True)\<close>, which answers
  \<open>None\<close> for an identifier that is not stored.
\<close>

type_synonym datastore = "(event_id \<times> EventBase) list"

definition get_event :: "datastore \<Rightarrow> event_id \<Rightarrow> EventBase option" where
  "get_event store eid = map_of store eid"

datatype py_error = AssertionError | IndexError

subsection \<open>The dictionary of bitmaps and the set of edges\<close>

text \<open>
  \<open>seen\<close> is a \<^verbatim>\<open>defaultdict(int)\<close>: an insertion-ordered dictionary from event identifier
  to an unbounded Python integer. \<open>seen_get\<close> is \<^verbatim>\<open>seen.get(k, d)\<close>, which does not insert;
  \<open>seen_ior\<close> is \<^verbatim>\<open>seen[k] |= b\<close>, which reads \<open>0\<close> for a missing key and stores the
  result (a new key goes to the end, an old key keeps its place).
\<close>

type_synonym seen_map = "(event_id \<times> int) list"

definition seen_get :: "seen_map \<Rightarrow> event_id \<Rightarrow> int \<Rightarrow> int" where
  "seen_get sn k d = (case map_of sn k of None \<Rightarrow> d | Some v \<Rightarrow> v)"

definition seen_ior :: "seen_map \<Rightarrow> event_id \<Rightarrow> int \<Rightarrow> seen_map" where
  "seen_ior sn k b = AList.update k (seen_get sn k 0 OR b) sn"

text \<open>
  \<open>edges\<close> is a Python set of pairs, kept here as a list that \<open>edges_add\<close> extends only by
  a pair that is not yet a member (the iteration order of a Python set is unspecified).
\<close>

type_synonym edge_set = "(event_id \<times> event_id) list"

definition edges_add :: "event_id \<times> event_id \<Rightarrow> edge_set \<Rightarrow> edge_set" where
  "edges_add x es = List.insert x es"

section \<open>The traversal of dump_auth_chains\<close>

text \<open>
  The variables of the traversal. A stack entry is \<^verbatim>\<open>[event, auth event index]\<close>; the top
  of the stack is the last entry of the list (\<^verbatim>\<open>stack[-1]\<close>, \<^verbatim>\<open>append\<close>, \<^verbatim>\<open>pop\<close>).
\<close>

record dfs_state =
  seen :: seen_map
  edges :: edge_set
  stack :: "(event_id \<times> nat) list"

text \<open>One iteration of \<^verbatim>\<open>while stack:\<close>, run on a non-empty stack.\<close>

definition loop_body :: "datastore \<Rightarrow> int \<Rightarrow> dfs_state \<Rightarrow> py_error + dfs_state" where
  "loop_body store bitmask st =
     (case last (stack st) of (eid, pindex) \<Rightarrow>
        (case get_event store eid of
           None \<Rightarrow> Inl AssertionError
         | Some event \<Rightarrow>
             if pindex \<ge> length (auth_event_ids event) then
               Inr (st\<lparr>seen := seen_ior (seen st) eid bitmask, stack := butlast (stack st)\<rparr>)
             else
               (let pid = auth_event_ids event ! pindex;
                    st1 = st\<lparr>edges := edges_add (eid, pid) (edges st)\<rparr>
                in if seen_get (seen st1) pid 0 AND bitmask \<noteq> 0 then
                     Inr (st1\<lparr>stack := (stack st1)[length (stack st1) - 1 := (eid, pindex + 1)]\<rparr>)
                   else
                     Inr (st1\<lparr>stack := stack st1 @ [(pid, 0)]\<rparr>))))"

text \<open>
  The loop \<^verbatim>\<open>while stack:\<close>. It need not end (an event that is its own auth event keeps
  the stack growing), so it is a partial function: \<open>None\<close> is a run that never returns,
  \<open>Some (Inl e)\<close> a run that raises \<open>e\<close>, \<open>Some (Inr st)\<close> a run that leaves the loop in \<open>st\<close>.
\<close>

partial_function (option) dfs_loop ::
  "datastore \<Rightarrow> int \<Rightarrow> dfs_state \<Rightarrow> (py_error + dfs_state) option" where
  "dfs_loop store bitmask st =
     (if stack st = [] then Some (Inr st)
      else (case loop_body store bitmask st of
              Inl err \<Rightarrow> Some (Inl err)
            | Inr st' \<Rightarrow> dfs_loop store bitmask st'))"

declare dfs_loop.simps [code]

text \<open>
  \<^verbatim>\<open>for i, start in enumerate(state_after_parents)\<close>: the keys of the mapping in order,
  \<open>i\<close> counting from the first argument.
\<close>

fun traverse ::
  "datastore \<Rightarrow> nat \<Rightarrow> event_id list \<Rightarrow> dfs_state \<Rightarrow> (py_error + dfs_state) option" where
  "traverse store i [] st = Some (Inr st)"
| "traverse store i (start # rest) st =
     (case dfs_loop store (push_bit i 1) (st\<lparr>stack := [(start, 0)]\<rparr>) of
        None \<Rightarrow> None
      | Some (Inl err) \<Rightarrow> Some (Inl err)
      | Some (Inr st') \<Rightarrow> traverse store (Suc i) rest st')"

definition init_state :: dfs_state where
  "init_state = \<lparr>seen = [], edges = [], stack = []\<rparr>"

definition auth_chain_membership ::
  "datastore \<Rightarrow> event_id list \<Rightarrow> (py_error + dfs_state) option" where
  "auth_chain_membership store starts = traverse store 0 starts init_state"

section \<open>The graph that is written out\<close>

text \<open>Python list indexing: a negative index counts from the end, anything else raises.\<close>

definition py_index :: "'a list \<Rightarrow> int \<Rightarrow> py_error + 'a" where
  "py_index xs k =
     (let n = int (length xs); j = (if k < 0 then n + k else k)
      in if 0 \<le> j \<and> j < n then Inr (xs ! nat j) else Inl IndexError)"

definition colors :: "string list" where
  "colors = [''gray'', ''orangered'', ''lightskyblue'', ''mediumorchid1'']"

record dot_node =
  node_name :: string
  node_label :: string
  node_shape :: "string option"
  node_fillcolor :: string

definition node :: "(string \<Rightarrow> string) \<Rightarrow> EventBase \<Rightarrow> string \<Rightarrow> dot_node" where
  "node q event fillcolor =
     \<lparr>node_name = q (event_id event),
      node_label = event_id event @ [CHR 0x0A] @ event_type event,
      node_shape = (if event_type event = ''m.room.member'' then Some ''oval'' else None),
      node_fillcolor = fillcolor\<rparr>"

text \<open>\<^verbatim>\<open>for eid, bitmask in seen.items()\<close>, adding one node for each entry.\<close>

fun add_nodes ::
  "(string \<Rightarrow> string) \<Rightarrow> datastore \<Rightarrow> seen_map \<Rightarrow> dot_node list \<Rightarrow> py_error + dot_node list" where
  "add_nodes q store [] g = Inr g"
| "add_nodes q store ((eid, bitmask) # rest) g =
     (case get_event store eid of
        None \<Rightarrow> Inl AssertionError
      | Some event \<Rightarrow>
          (case py_index colors bitmask of
             Inl err \<Rightarrow> Inl err
           | Inr c \<Rightarrow> add_nodes q store rest (g @ [node q event c])))"

record dot_graph =
  graph_nodes :: "dot_node list"
  graph_edges :: "(string \<times> string) list"

text \<open>
  The whole of \<open>dump_auth_chains\<close> up to the two files it writes; \<open>q\<close> is pydot's
  \<^verbatim>\<open>quote_if_necessary\<close>, and \<open>state_after_parents\<close> is given by its keys in order.
\<close>

definition dump_auth_chains ::
  "(string \<Rightarrow> string) \<Rightarrow> datastore \<Rightarrow> event_id list \<Rightarrow> (py_error + dot_graph) option" where
  "dump_auth_chains q store state_after_parents =
     (case auth_chain_membership store state_after_parents of
        None \<Rightarrow> None
      | Some (Inl err) \<Rightarrow> Some (Inl err)
      | Some (Inr st) \<Rightarrow>
          (case add_nodes q store (seen st) [] of
             Inl err \<Rightarrow> Some (Inl err)
           | Inr ns \<Rightarrow>
               Some (Inr \<lparr>graph_nodes = ns,
                          graph_edges = map (\<lambda>(eid, pid). (q eid, q pid)) (edges st)\<rparr>)))"

section \<open>The auth graph\<close>

definition auth_edge :: "datastore \<Rightarrow> (event_id \<times> event_id) set" where
  "auth_edge store =
     {(e, p). \<exists>ev. get_event store e = Some ev \<and> p \<in> set (auth_event_ids ev)}"

definition auth_chain :: "datastore \<Rightarrow> event_id \<Rightarrow> event_id set" where
  "auth_chain store s = {e. (s, e) \<in> (auth_edge store)\<^sup>*}"

section \<open>The un-partial-stated replication stream\<close>

text \<open>
  The row class of \<open>UnPartialStatedRoomStream\<close> and the stream's name. \<open>RoomID\<close> is declared
  elsewhere in the repository and is a type parameter here.
\<close>

datatype 'room_id UnPartialStatedRoomStreamRow =
  UnPartialStatedRoomStreamRow (room_id: 'room_id)

definition NAME :: string where
  "NAME = ''un_partial_stated_room''"

section \<open>Invariants and measures of the traversal\<close>

text \<open>
  \<open>marked i sn e\<close>: bit \<open>i\<close> of \<open>sn[e]\<close> is set (a missing key reads as 0).
  \<open>auth_len\<close> is the number of auth event entries of a stored event.
\<close>

definition marked :: "nat \<Rightarrow> seen_map \<Rightarrow> event_id \<Rightarrow> bool" where
  "marked i sn e = bit (seen_get sn e 0) i"

definition auth_len :: "datastore \<Rightarrow> event_id \<Rightarrow> nat" where
  "auth_len store e =
     (case get_event store e of None \<Rightarrow> 0 | Some ev \<Rightarrow> length (auth_event_ids ev))"

text \<open>
  \<open>loop_iter store b n st\<close> runs at most \<open>n\<close> iterations of the loop from \<open>st\<close>; the result is
  \<open>finished\<close> when the loop has been left, by an exception or with an empty stack.
\<close>

fun loop_iter :: "datastore \<Rightarrow> int \<Rightarrow> nat \<Rightarrow> dfs_state \<Rightarrow> py_error + dfs_state" where
  "loop_iter store b 0 st = Inr st"
| "loop_iter store b (Suc n) st =
     (if stack st = [] then Inr st
      else (case loop_body store b st of
              Inl err \<Rightarrow> Inl err
            | Inr st' \<Rightarrow> loop_iter store b n st'))"

fun finished :: "py_error + dfs_state \<Rightarrow> bool" where
  "finished (Inl err) = True"
| "finished (Inr st) = (stack st = [])"

text \<open>
  The invariant of the loop for the start event \<open>s\<close>, on the set \<open>M\<close> of events that carry
  the bit of \<open>s\<close> and the stack \<open>stk\<close>: an event lower in the stack reaches every event above
  it; \<open>M\<close> holds fetched events only and is closed under auth edges; the auth events before
  the index of a frame are in \<open>M\<close>; the bottom frame is \<open>s\<close>, and \<open>s\<close> is in \<open>M\<close> once the stack is
  empty; the events in \<open>M\<close> and on the stack are reachable from \<open>s\<close>. On an acyclic graph, in
  addition (\<open>inv_acyc\<close>) the events on the stack are pairwise different and not in \<open>M\<close>.
\<close>

definition inv_core ::
  "datastore \<Rightarrow> event_id \<Rightarrow> event_id set \<Rightarrow> (event_id \<times> nat) list \<Rightarrow> bool" where
  "inv_core store s M stk \<longleftrightarrow>
     sorted_wrt (\<lambda>x y. (fst x, fst y) \<in> (auth_edge store)\<^sup>+) stk
     \<and> (\<forall>e \<in> M. get_event store e \<noteq> None \<and> (\<forall>p. (e, p) \<in> auth_edge store \<longrightarrow> p \<in> M))
     \<and> (\<forall>(e, p) \<in> set stk. p \<le> auth_len store e
           \<and> (\<forall>ev. get_event store e = Some ev \<longrightarrow> (\<forall>q<p. auth_event_ids ev ! q \<in> M)))
     \<and> (if stk = [] then s \<in> M else fst (hd stk) = s)
     \<and> (\<forall>e \<in> M. (s, e) \<in> (auth_edge store)\<^sup>*)
     \<and> (\<forall>(e, p) \<in> set stk. (s, e) \<in> (auth_edge store)\<^sup>*)"

definition inv_acyc :: "event_id set \<Rightarrow> (event_id \<times> nat) list \<Rightarrow> bool" where
  "inv_acyc M stk \<longleftrightarrow> distinct (map fst stk) \<and> (\<forall>(e, p) \<in> set stk. e \<notin> M)"

definition dfs_inv :: "datastore \<Rightarrow> nat \<Rightarrow> event_id \<Rightarrow> dfs_state \<Rightarrow> bool" where
  "dfs_inv store i s st = inv_core store s {e. marked i (seen st) e} (stack st)"

definition dfs_acyc :: "nat \<Rightarrow> dfs_state \<Rightarrow> bool" where
  "dfs_acyc i st = inv_acyc {e. marked i (seen st) e} (stack st)"

text \<open>
  The measure that every iteration decreases on an acyclic graph: \<open>2 + auth_len\<close> for an
  event of the chain that is neither marked nor on the stack, and one more than the number
  of auth entries still to look at for a frame on the stack.
\<close>

definition weight ::
  "datastore \<Rightarrow> event_id \<Rightarrow> event_id set \<Rightarrow> (event_id \<times> nat) list \<Rightarrow> nat" where
  "weight store s M stk =
     (\<Sum>e \<in> auth_chain store s - M - fst ` set stk. 2 + auth_len store e)
     + (\<Sum>(e, p) \<leftarrow> stk. Suc (auth_len store e - p))"

definition dfs_weight :: "datastore \<Rightarrow> nat \<Rightarrow> event_id \<Rightarrow> dfs_state \<Rightarrow> nat" where
  "dfs_weight store i s st = weight store s {e. marked i (seen st) e} (stack st)"

text \<open>
  \<open>start_state st s\<close> is the state after \<^verbatim>\<open>stack = [[start, 0]]\<close>; \<open>fresh i st\<close> says that no
  bit from position \<open>i\<close> on is set in \<open>seen\<close>, as it is before the start event at position \<open>i\<close>.
\<close>

definition start_state :: "dfs_state \<Rightarrow> event_id \<Rightarrow> dfs_state" where
  "start_state st s = st\<lparr>stack := [(s, 0)]\<rparr>"

definition fresh :: "nat \<Rightarrow> dfs_state \<Rightarrow> bool" where
  "fresh i st \<longleftrightarrow> (\<forall>e j. i \<le> j \<longrightarrow> \<not> marked j (seen st) e)"

text \<open>
  The invariant of the edge set \<open>E\<close>, which was \<open>E0\<close> when the loop was entered: it has grown
  by auth edges of events of the chain only, and it holds every auth edge of a marked event
  and every auth edge before the index of a frame.
\<close>

definition edges_inv ::
  "datastore \<Rightarrow> event_id \<Rightarrow> (event_id \<times> event_id) set \<Rightarrow> event_id set
     \<Rightarrow> (event_id \<times> nat) list \<Rightarrow> (event_id \<times> event_id) set \<Rightarrow> bool" where
  "edges_inv store s E0 M stk E \<longleftrightarrow>
     E0 \<subseteq> E
     \<and> E \<subseteq> E0 \<union> {(e, p). (e, p) \<in> auth_edge store \<and> e \<in> auth_chain store s}
     \<and> (\<forall>e \<in> M. \<forall>p. (e, p) \<in> auth_edge store \<longrightarrow> (e, p) \<in> E)
     \<and> (\<forall>(e, p) \<in> set stk. \<forall>ev. get_event store e = Some ev
           \<longrightarrow> (\<forall>q<p. (e, auth_event_ids ev ! q) \<in> E))"

definition dfs_edges ::
  "datastore \<Rightarrow> nat \<Rightarrow> event_id \<Rightarrow> (event_id \<times> event_id) set \<Rightarrow> dfs_state \<Rightarrow> bool" where
  "dfs_edges store i s E0 st =
     edges_inv store s E0 {e. marked i (seen st) e} (stack st) (set (edges st))"

text \<open>Every key of \<open>seen\<close> is a stored event and every bitmap is non-negative.\<close>

definition seen_ok :: "datastore \<Rightarrow> seen_map \<Rightarrow> bool" where
  "seen_ok store sn \<longleftrightarrow> (\<forall>(k, v) \<in> set sn. get_event store k \<noteq> None \<and> 0 \<le> v)"

text \<open>
  The events that the first \<open>n\<close> iterations of the loop push, in order: an iteration pushes
  when it leaves the stack longer, and the event pushed is the one on top.
\<close>

fun pushed :: "datastore \<Rightarrow> int \<Rightarrow> nat \<Rightarrow> dfs_state \<Rightarrow> event_id list" where
  "pushed store b 0 st = []"
| "pushed store b (Suc n) st =
     (if stack st = [] then []
      else (case loop_body store b st of
              Inl err \<Rightarrow> []
            | Inr st' \<Rightarrow>
                (if length (stack st) < length (stack st') then [fst (last (stack st'))] else [])
                @ pushed store b n st'))"

text \<open>What the traversal has established when the first \<open>k\<close> start events are done.\<close>

definition summary :: "datastore \<Rightarrow> event_id list \<Rightarrow> nat \<Rightarrow> dfs_state \<Rightarrow> bool" where
  "summary store starts k st \<longleftrightarrow>
     (\<forall>e j. marked j (seen st) e \<longleftrightarrow> j < k \<and> e \<in> auth_chain store (starts ! j))
     \<and> distinct (edges st)
     \<and> set (edges st)
         = {(e, p). (e, p) \<in> auth_edge store \<and> (\<exists>j<k. e \<in> auth_chain store (starts ! j))}
     \<and> seen_ok store (seen st)"

section \<open>Example event stores\<close>

text \<open>
  A chain \<open>A \<rightarrow> B \<rightarrow> C\<close> of auth events, and a store in which the auth event of \<open>A\<close> is
  missing.
\<close>

definition mk_event :: "event_id \<Rightarrow> event_id list \<Rightarrow> EventBase" where
  "mk_event k as = \<lparr>event_id = k, event_type = ''m.room.member'', auth_event_ids = as\<rparr>"

definition chain_store :: datastore where
  "chain_store =
     [(''A'', mk_event ''A'' [''B'']), (''B'', mk_event ''B'' [''C'']), (''C'', mk_event ''C'' [])]"

definition chain_rank :: "event_id \<Rightarrow> nat" where
  "chain_rank k = (if k = ''A'' then 2 else if k = ''B'' then 1 else 0)"

definition dangling_store :: datastore where
  "dangling_store = [(''A'', mk_event ''A'' [''B''])]"

definition chain_graph :: dot_graph where
  "chain_graph =
     \<lparr>graph_nodes =
        [node id (mk_event ''C'' []) ''mediumorchid1'',
         node id (mk_event ''B'' [''C'']) ''mediumorchid1'',
         node id (mk_event ''A'' [''B'']) ''orangered''],
      graph_edges = [(''B'', ''C''), (''A'', ''B'')]\<rparr>"

section \<open>The iteration bound and the step of the specification\<close>

definition work_bound :: "datastore \<Rightarrow> event_id \<Rightarrow> nat" where
  "work_bound store s =
     2 * card (auth_chain store s) + (\<Sum>e \<in> auth_chain store s. auth_len store e) - 1"

text \<open>
  The step as the specification words it, on bit positions: when all auth events of the top
  frame's event have been visited, mark the event reachable from start \<open>i\<close> and pop; when the
  auth event at the current index already has bit \<open>i\<close>, advance past it; otherwise push the
  auth event as a new frame. The edge to the auth event is recorded when it is looked at.
\<close>

definition spec_mark :: "seen_map \<Rightarrow> event_id \<Rightarrow> nat \<Rightarrow> seen_map" where
  "spec_mark sn e i = AList.update e (set_bit i (seen_get sn e 0)) sn"

definition spec_step :: "datastore \<Rightarrow> nat \<Rightarrow> dfs_state \<Rightarrow> py_error + dfs_state" where
  "spec_step store i st =
     (case get_event store (fst (last (stack st))) of
        None \<Rightarrow> Inl AssertionError
      | Some event \<Rightarrow>
          (let eid = fst (last (stack st)); k = snd (last (stack st));
               auths = auth_event_ids event
           in if length auths \<le> k then
                Inr \<lparr>seen = spec_mark (seen st) eid i, edges = edges st,
                     stack = butlast (stack st)\<rparr>
              else if bit (seen_get (seen st) (auths ! k) 0) i then
                Inr \<lparr>seen = seen st, edges = edges_add (eid, auths ! k) (edges st),
                     stack = butlast (stack st) @ [(eid, Suc k)]\<rparr>
              else
                Inr \<lparr>seen = seen st, edges = edges_add (eid, auths ! k) (edges st),
                     stack = stack st @ [(auths ! k, 0)]\<rparr>))"

section \<open>The constructor of the stream\<close>

text \<open>
  The constructor of \<open>UnPartialStatedRoomStream\<close> hands the base class the name of the local
  instance, the current-token callback and the update function.
\<close>

record 'u Stream =
  local_instance_name :: string
  current_token :: "string \<Rightarrow> nat"
  update_function :: 'u

text \<open>
  Modelled from the spec: \<open>current_token_without_instance\<close> is imported from the streams
  base module, which is not among the sources. By the spec the current position is asked
  for without an instance, so the wrapped callback ignores the instance name it is given.
\<close>

definition current_token_without_instance :: "(unit \<Rightarrow> nat) \<Rightarrow> string \<Rightarrow> nat" where
  "current_token_without_instance token = (\<lambda>instance_name. token ())"

text \<open>
  Modelled from the spec: \<open>get_un_partial_stated_rooms_token\<close> is a method of the main
  datastore, which is not among the sources. By the spec a token is a non-negative integer
  position for each writer instance, and the position exposed in a deployment with several
  writers is the minimum across the instances that have acknowledged; the argument lists
  those instances with their positions.
\<close>

definition get_un_partial_stated_rooms_token :: "(string \<times> nat) list \<Rightarrow> unit \<Rightarrow> nat" where
  "get_un_partial_stated_rooms_token positions = (\<lambda>_. Min (set (map snd positions)))"

definition UnPartialStatedRoomStream_init ::
  "string \<Rightarrow> (unit \<Rightarrow> nat) \<Rightarrow> 'u \<Rightarrow> 'u Stream" where
  "UnPartialStatedRoomStream_init instance_name token rows_from_stream =
     \<lparr>local_instance_name = instance_name,
      current_token = current_token_without_instance token,
      update_function = rows_from_stream\<rparr>"

section \<open>Properties\<close>

lemma and_bit_test: "((x::int) AND 2 ^ i \<noteq> 0) \<longleftrightarrow> bit x i"
  by (simp add: and_exp_eq_0_iff_not_bit)

lemma bit_or_mask: "bit ((x::int) OR 2 ^ i) j \<longleftrightarrow> bit x j \<or> j = i"
  by (auto simp add: bit_or_iff bit_exp_iff)

lemma seen_get_ior:
  "seen_get (seen_ior sn k b) e 0 = (if e = k then seen_get sn k 0 OR b else seen_get sn e 0)"
  by (simp add: seen_get_def seen_ior_def update_conv')

lemma marked_ior:
  "marked j (seen_ior sn k (2 ^ i)) e \<longleftrightarrow> marked j sn e \<or> (e = k \<and> j = i)"
  by (auto simp: marked_def seen_get_ior bit_or_mask)

lemma marked_set_ior:
  "{e. marked i (seen_ior sn k (2 ^ i)) e} = insert k {e. marked i sn e}"
  by (auto simp: marked_ior)

lemma loop_body_cases [consumes 1, case_names missing mark advance push]:
  assumes stk: "stack st = fs @ [(eid, pindex)]"
  obtains
    "get_event store eid = None" "loop_body store b st = Inl AssertionError"
  | ev where "get_event store eid = Some ev" "length (auth_event_ids ev) \<le> pindex"
      "loop_body store b st = Inr (st\<lparr>seen := seen_ior (seen st) eid b, stack := fs\<rparr>)"
  | ev where "get_event store eid = Some ev" "pindex < length (auth_event_ids ev)"
      "seen_get (seen st) (auth_event_ids ev ! pindex) 0 AND b \<noteq> 0"
      "loop_body store b st =
         Inr (st\<lparr>edges := edges_add (eid, auth_event_ids ev ! pindex) (edges st),
                 stack := fs @ [(eid, Suc pindex)]\<rparr>)"
  | ev where "get_event store eid = Some ev" "pindex < length (auth_event_ids ev)"
      "seen_get (seen st) (auth_event_ids ev ! pindex) 0 AND b = 0"
      "loop_body store b st =
         Inr (st\<lparr>edges := edges_add (eid, auth_event_ids ev ! pindex) (edges st),
                 stack := fs @ [(eid, pindex), (auth_event_ids ev ! pindex, 0)]\<rparr>)"
proof (cases "get_event store eid")
  case None
  then have "loop_body store b st = Inl AssertionError"
    by (simp add: loop_body_def stk)
  with None show ?thesis using that(1) by blast
next
  case (Some ev)
  show ?thesis
  proof (cases "length (auth_event_ids ev) \<le> pindex")
    case True
    with Some have "loop_body store b st = Inr (st\<lparr>seen := seen_ior (seen st) eid b, stack := fs\<rparr>)"
      by (simp add: loop_body_def stk)
    with Some True show ?thesis using that(2) by blast
  next
    case False
    then have lt: "pindex < length (auth_event_ids ev)" by simp
    show ?thesis
    proof (cases "seen_get (seen st) (auth_event_ids ev ! pindex) 0 AND b = 0")
      case True
      with Some lt have "loop_body store b st =
         Inr (st\<lparr>edges := edges_add (eid, auth_event_ids ev ! pindex) (edges st),
                 stack := fs @ [(eid, pindex), (auth_event_ids ev ! pindex, 0)]\<rparr>)"
        by (simp add: loop_body_def stk Let_def)
      with Some lt True show ?thesis using that(4) by blast
    next
      case False
      with Some lt have "loop_body store b st =
         Inr (st\<lparr>edges := edges_add (eid, auth_event_ids ev ! pindex) (edges st),
                 stack := fs @ [(eid, Suc pindex)]\<rparr>)"
        by (simp add: loop_body_def stk Let_def)
      with Some lt False show ?thesis using that(3) by blast
    qed
  qed
qed

lemma auth_edgeI:
  "get_event store e = Some ev \<Longrightarrow> q < length (auth_event_ids ev)
   \<Longrightarrow> (e, auth_event_ids ev ! q) \<in> auth_edge store"
  by (auto simp: auth_edge_def)

lemma auth_edgeD:
  "(e, p) \<in> auth_edge store \<Longrightarrow> get_event store e = Some ev
   \<Longrightarrow> \<exists>q<length (auth_event_ids ev). p = auth_event_ids ev ! q"
  by (auto simp: auth_edge_def in_set_conv_nth)

lemma inv_core_mark:
  assumes inv: "inv_core store s M (fs @ [(eid, p)])"
    and ev: "get_event store eid = Some ev" and le: "length (auth_event_ids ev) \<le> p"
  shows "inv_core store s (insert eid M) fs"
proof -
  have closed: "\<forall>pa. (eid, pa) \<in> auth_edge store \<longrightarrow> pa \<in> M"
  proof (intro allI impI)
    fix pa assume "(eid, pa) \<in> auth_edge store"
    then obtain q where "q < length (auth_event_ids ev)" "pa = auth_event_ids ev ! q"
      using auth_edgeD [OF _ ev] by blast
    moreover have "\<forall>q<p. auth_event_ids ev ! q \<in> M"
      using inv ev by (auto simp: inv_core_def)
    ultimately show "pa \<in> M" using le by auto
  qed
  have hd: "fs \<noteq> [] \<Longrightarrow> fst (hd fs) = s" "fs = [] \<Longrightarrow> eid = s"
    using inv by (auto simp: inv_core_def hd_append split: if_splits)
  have reach: "(s, eid) \<in> (auth_edge store)\<^sup>*"
    using inv by (auto simp: inv_core_def)
  show ?thesis
    unfolding inv_core_def
  proof (intro conjI)
    show "sorted_wrt (\<lambda>x y. (fst x, fst y) \<in> (auth_edge store)\<^sup>+) fs"
      using inv by (simp add: inv_core_def sorted_wrt_append)
    show "\<forall>e\<in>insert eid M. get_event store e \<noteq> None
            \<and> (\<forall>p. (e, p) \<in> auth_edge store \<longrightarrow> p \<in> insert eid M)"
      using inv closed ev by (auto simp: inv_core_def)
    show "\<forall>(e, p)\<in>set fs. p \<le> auth_len store e
            \<and> (\<forall>ev. get_event store e = Some ev
                  \<longrightarrow> (\<forall>q<p. auth_event_ids ev ! q \<in> insert eid M))"
      using inv by (fastforce simp: inv_core_def)
    show "if fs = [] then s \<in> insert eid M else fst (hd fs) = s"
      using hd by auto
    show "\<forall>e\<in>insert eid M. (s, e) \<in> (auth_edge store)\<^sup>*"
      using inv reach by (auto simp: inv_core_def)
    show "\<forall>(e, p)\<in>set fs. (s, e) \<in> (auth_edge store)\<^sup>*"
      using inv by (auto simp: inv_core_def)
  qed
qed

lemma inv_core_advance:
  assumes inv: "inv_core store s M (fs @ [(eid, p)])"
    and ev: "get_event store eid = Some ev" and lt: "p < length (auth_event_ids ev)"
    and mk: "auth_event_ids ev ! p \<in> M"
  shows "inv_core store s M (fs @ [(eid, Suc p)])"
proof -
  have pre: "\<forall>q<Suc p. auth_event_ids ev ! q \<in> M"
    using inv ev mk by (auto simp: inv_core_def less_Suc_eq)
  have len: "Suc p \<le> auth_len store eid"
    using ev lt by (simp add: auth_len_def)
  show ?thesis
    unfolding inv_core_def
  proof (intro conjI)
    show "sorted_wrt (\<lambda>x y. (fst x, fst y) \<in> (auth_edge store)\<^sup>+) (fs @ [(eid, Suc p)])"
      using inv by (simp add: inv_core_def sorted_wrt_append)
    show "\<forall>e\<in>M. get_event store e \<noteq> None \<and> (\<forall>p. (e, p) \<in> auth_edge store \<longrightarrow> p \<in> M)"
      using inv by (simp add: inv_core_def)
    show "\<forall>(e, pa)\<in>set (fs @ [(eid, Suc p)]). pa \<le> auth_len store e
            \<and> (\<forall>ev. get_event store e = Some ev \<longrightarrow> (\<forall>q<pa. auth_event_ids ev ! q \<in> M))"
      using inv pre len ev by (auto simp: inv_core_def)
    show "if fs @ [(eid, Suc p)] = [] then s \<in> M else fst (hd (fs @ [(eid, Suc p)])) = s"
      using inv by (auto simp: inv_core_def hd_append split: if_splits)
    show "\<forall>e\<in>M. (s, e) \<in> (auth_edge store)\<^sup>*"
      using inv by (simp add: inv_core_def)
    show "\<forall>(e, pa)\<in>set (fs @ [(eid, Suc p)]). (s, e) \<in> (auth_edge store)\<^sup>*"
      using inv by (auto simp: inv_core_def)
  qed
qed

lemma inv_core_push:
  assumes inv: "inv_core store s M (fs @ [(eid, p)])"
    and ev: "get_event store eid = Some ev" and lt: "p < length (auth_event_ids ev)"
  shows "inv_core store s M (fs @ [(eid, p), (auth_event_ids ev ! p, 0)])"
proof -
  let ?pid = "auth_event_ids ev ! p"
  have edge: "(eid, ?pid) \<in> auth_edge store"
    using ev lt by (rule auth_edgeI)
  have reach: "(s, eid) \<in> (auth_edge store)\<^sup>*"
    using inv by (auto simp: inv_core_def)
  have srt: "sorted_wrt (\<lambda>x y. (fst x, fst y) \<in> (auth_edge store)\<^sup>+) (fs @ [(eid, p)])"
    using inv by (simp add: inv_core_def)
  have below: "\<forall>x\<in>set fs. (fst x, eid) \<in> (auth_edge store)\<^sup>+"
    using srt by (auto simp: sorted_wrt_append)
  have "sorted_wrt (\<lambda>x y. (fst x, fst y) \<in> (auth_edge store)\<^sup>+) ((fs @ [(eid, p)]) @ [(?pid, 0)])"
    unfolding sorted_wrt_append [of _ "fs @ [(eid, p)]"]
    using srt below edge by (auto intro: trancl_into_trancl)
  then have srt': "sorted_wrt (\<lambda>x y. (fst x, fst y) \<in> (auth_edge store)\<^sup>+) (fs @ [(eid, p), (?pid, 0)])"
    by simp
  show ?thesis
    unfolding inv_core_def
  proof (intro conjI)
    show "sorted_wrt (\<lambda>x y. (fst x, fst y) \<in> (auth_edge store)\<^sup>+) (fs @ [(eid, p), (?pid, 0)])"
      by (rule srt')
    show "\<forall>e\<in>M. get_event store e \<noteq> None \<and> (\<forall>p. (e, p) \<in> auth_edge store \<longrightarrow> p \<in> M)"
      using inv by (simp add: inv_core_def)
    show "\<forall>(e, pa)\<in>set (fs @ [(eid, p), (?pid, 0)]). pa \<le> auth_len store e
            \<and> (\<forall>ev. get_event store e = Some ev \<longrightarrow> (\<forall>q<pa. auth_event_ids ev ! q \<in> M))"
      using inv by (auto simp: inv_core_def)
    show "if fs @ [(eid, p), (?pid, 0)] = [] then s \<in> M
          else fst (hd (fs @ [(eid, p), (?pid, 0)])) = s"
      using inv by (auto simp: inv_core_def hd_append split: if_splits)
    show "\<forall>e\<in>M. (s, e) \<in> (auth_edge store)\<^sup>*"
      using inv by (simp add: inv_core_def)
    show "\<forall>(e, pa)\<in>set (fs @ [(eid, p), (?pid, 0)]). (s, e) \<in> (auth_edge store)\<^sup>*"
      using inv reach edge by (auto simp: inv_core_def intro: rtrancl_into_rtrancl)
  qed
qed

lemma finite_auth_chain: "finite (auth_chain store s)"
proof -
  have "Range (auth_edge store) \<subseteq> (\<Union>x \<in> set store. set (auth_event_ids (snd x)))"
    by (force simp: auth_edge_def get_event_def dest: map_of_SomeD)
  then have fin: "finite (Range (auth_edge store))"
    by (rule finite_subset) simp
  have "auth_chain store s \<subseteq> insert s (Range (auth_edge store))"
    by (auto simp: auth_chain_def elim: rtranclE)
  then show ?thesis
    using fin by (meson finite_insert finite_subset)
qed

lemma inv_acyc_mark:
  "inv_acyc M (fs @ [(eid, p)]) \<Longrightarrow> inv_acyc (insert eid M) fs"
  by (force simp: inv_acyc_def)

lemma inv_acyc_advance:
  "inv_acyc M (fs @ [(eid, p)]) \<Longrightarrow> inv_acyc M (fs @ [(eid, q)])"
  by (auto simp: inv_acyc_def)

lemma stack_not_above:
  assumes acyc: "acyclic (auth_edge store)"
    and inv: "inv_core store s M (fs @ [(eid, p)])"
    and edge: "(eid, pid) \<in> auth_edge store"
  shows "pid \<notin> fst ` set (fs @ [(eid, p)])"
proof
  assume "pid \<in> fst ` set (fs @ [(eid, p)])"
  then have "pid = eid \<or> (\<exists>x\<in>set fs. fst x = pid)" by auto
  moreover have "\<forall>x\<in>set fs. (fst x, eid) \<in> (auth_edge store)\<^sup>+"
    using inv by (auto simp: inv_core_def sorted_wrt_append)
  ultimately have "(pid, eid) \<in> (auth_edge store)\<^sup>*"
    by auto
  with edge have "(pid, pid) \<in> (auth_edge store)\<^sup>+"
    by (meson rtrancl_into_trancl1)
  with acyc show False by (simp add: acyclic_def)
qed

lemma inv_acyc_push:
  assumes acyc: "acyclic (auth_edge store)"
    and inv: "inv_core store s M (fs @ [(eid, p)])"
    and ia: "inv_acyc M (fs @ [(eid, p)])"
    and edge: "(eid, pid) \<in> auth_edge store" and un: "pid \<notin> M"
  shows "inv_acyc M (fs @ [(eid, p), (pid, 0)])"
proof -
  have "pid \<notin> fst ` set (fs @ [(eid, p)])"
    using acyc inv edge by (rule stack_not_above)
  then show ?thesis
    using ia un by (auto simp: inv_acyc_def)
qed

lemma weight_mark:
  assumes "inv_acyc M (fs @ [(eid, p)])"
  shows "weight store s (insert eid M) fs < weight store s M (fs @ [(eid, p)])"
proof -
  have "auth_chain store s - insert eid M - fst ` set fs
        = auth_chain store s - M - fst ` set (fs @ [(eid, p)])"
    by auto
  then show ?thesis
    by (simp add: weight_def)
qed

lemma weight_advance:
  assumes "p < auth_len store eid"
  shows "weight store s M (fs @ [(eid, Suc p)]) < weight store s M (fs @ [(eid, p)])"
proof -
  have "fst ` set (fs @ [(eid, Suc p)]) = fst ` set (fs @ [(eid, p)])"
    by auto
  then show ?thesis
    using assms by (simp add: weight_def)
qed

lemma weight_push:
  assumes new: "pid \<notin> fst ` set (fs @ [(eid, p)])" and un: "pid \<notin> M"
    and reach: "pid \<in> auth_chain store s"
  shows "weight store s M (fs @ [(eid, p), (pid, 0)]) < weight store s M (fs @ [(eid, p)])"
proof -
  let ?A = "auth_chain store s - M - fst ` set (fs @ [(eid, p)])"
  have mem: "pid \<in> ?A" using new un reach by simp
  have fin: "finite ?A" using finite_auth_chain by simp
  have eq: "auth_chain store s - M - fst ` set (fs @ [(eid, p), (pid, 0)]) = ?A - {pid}"
    by auto
  have "(\<Sum>e \<in> ?A. 2 + auth_len store e)
        = (2 + auth_len store pid) + (\<Sum>e \<in> ?A - {pid}. 2 + auth_len store e)"
    using fin mem by (rule sum.remove)
  then show ?thesis
    unfolding weight_def eq by simp
qed

lemma weight_pos: "stk \<noteq> [] \<Longrightarrow> 0 < weight store s M stk"
  by (cases stk) (auto simp: weight_def)

lemma stack_snoc: "stack st \<noteq> [] \<Longrightarrow> \<exists>fs eid p. stack st = fs @ [(eid, p)]"
  by (metis rev_exhaust surj_pair)

lemma loop_body_dfs_inv:
  assumes inv: "dfs_inv store i s st" and ne: "stack st \<noteq> []"
    and step: "loop_body store (2 ^ i) st = Inr st'"
  shows "dfs_inv store i s st'"
proof -
  from ne obtain fs eid p where stk: "stack st = fs @ [(eid, p)]"
    using stack_snoc by blast
  have core: "inv_core store s {e. marked i (seen st) e} (fs @ [(eid, p)])"
    using inv stk by (simp add: dfs_inv_def)
  from stk show ?thesis
  proof (cases rule: loop_body_cases [where store = store and b = "2 ^ i"])
    case missing
    with step show ?thesis by simp
  next
    case (mark ev)
    with step have st': "st' = st\<lparr>seen := seen_ior (seen st) eid (2 ^ i), stack := fs\<rparr>"
      by simp
    show ?thesis
      unfolding dfs_inv_def st' using inv_core_mark [OF core mark(1) mark(2)]
      by (simp add: marked_set_ior)
  next
    case (advance ev)
    with step have st': "st' = st\<lparr>edges := edges_add (eid, auth_event_ids ev ! p) (edges st),
                 stack := fs @ [(eid, Suc p)]\<rparr>"
      by simp
    have "auth_event_ids ev ! p \<in> {e. marked i (seen st) e}"
      using advance(3) by (simp add: marked_def and_bit_test)
    from inv_core_advance [OF core advance(1) advance(2) this] show ?thesis
      unfolding dfs_inv_def st' by simp
  next
    case (push ev)
    with step have st': "st' = st\<lparr>edges := edges_add (eid, auth_event_ids ev ! p) (edges st),
                 stack := fs @ [(eid, p), (auth_event_ids ev ! p, 0)]\<rparr>"
      by simp
    from inv_core_push [OF core push(1) push(2)] show ?thesis
      unfolding dfs_inv_def st' by simp
  qed
qed

lemma loop_body_marked:
  assumes ne: "stack st \<noteq> []" and step: "loop_body store (2 ^ i) st = Inr st'"
  shows "(marked j (seen st) e \<longrightarrow> marked j (seen st') e)
         \<and> (j \<noteq> i \<longrightarrow> marked j (seen st') e = marked j (seen st) e)"
proof -
  from ne obtain fs eid p where stk: "stack st = fs @ [(eid, p)]"
    using stack_snoc by blast
  from stk show ?thesis
  proof (cases rule: loop_body_cases [where store = store and b = "2 ^ i"])
    case missing
    with step show ?thesis by simp
  next
    case (mark ev)
    with step have "seen st' = seen_ior (seen st) eid (2 ^ i)" by auto
    then show ?thesis by (auto simp: marked_ior)
  next
    case (advance ev)
    with step have "seen st' = seen st" by auto
    then show ?thesis by simp
  next
    case (push ev)
    with step have "seen st' = seen st" by auto
    then show ?thesis by simp
  qed
qed

lemma loop_body_acyc:
  assumes acyc: "acyclic (auth_edge store)"
    and inv: "dfs_inv store i s st" and ia: "dfs_acyc i st" and ne: "stack st \<noteq> []"
    and step: "loop_body store (2 ^ i) st = Inr st'"
  shows "dfs_acyc i st' \<and> dfs_weight store i s st' < dfs_weight store i s st"
proof -
  from ne obtain fs eid p where stk: "stack st = fs @ [(eid, p)]"
    using stack_snoc by blast
  let ?M = "{e. marked i (seen st) e}"
  have core: "inv_core store s ?M (fs @ [(eid, p)])"
    using inv stk by (simp add: dfs_inv_def)
  have ia': "inv_acyc ?M (fs @ [(eid, p)])"
    using ia stk by (simp add: dfs_acyc_def)
  from stk show ?thesis
  proof (cases rule: loop_body_cases [where store = store and b = "2 ^ i"])
    case missing
    with step show ?thesis by simp
  next
    case (mark ev)
    with step have st': "st' = st\<lparr>seen := seen_ior (seen st) eid (2 ^ i), stack := fs\<rparr>"
      by simp
    show ?thesis
      unfolding dfs_acyc_def dfs_weight_def st'
      using inv_acyc_mark [OF ia'] weight_mark [OF ia', where store = store and s = s]
      by (simp add: marked_set_ior stk)
  next
    case (advance ev)
    with step have st': "st' = st\<lparr>edges := edges_add (eid, auth_event_ids ev ! p) (edges st),
                 stack := fs @ [(eid, Suc p)]\<rparr>"
      by simp
    have "p < auth_len store eid" using advance(1,2) by (simp add: auth_len_def)
    from weight_advance [OF this, where s = s and M = ?M and fs = fs] inv_acyc_advance [OF ia', where q = "Suc p"]
    show ?thesis
      unfolding dfs_acyc_def dfs_weight_def st' by (simp add: stk)
  next
    case (push ev)
    let ?pid = "auth_event_ids ev ! p"
    from push step have st': "st' = st\<lparr>edges := edges_add (eid, ?pid) (edges st),
                 stack := fs @ [(eid, p), (?pid, 0)]\<rparr>"
      by simp
    have edge: "(eid, ?pid) \<in> auth_edge store"
      using push(1,2) by (rule auth_edgeI)
    have un: "?pid \<notin> ?M"
      using push(3) and_bit_test [of "seen_get (seen st) ?pid 0" i] by (simp add: marked_def)
    have new: "?pid \<notin> fst ` set (fs @ [(eid, p)])"
      using acyc core edge by (rule stack_not_above)
    have "(s, eid) \<in> (auth_edge store)\<^sup>*"
      using core by (auto simp: inv_core_def)
    with edge have reach: "?pid \<in> auth_chain store s"
      by (auto simp: auth_chain_def intro: rtrancl_into_rtrancl)
    from inv_acyc_push [OF acyc core ia' edge un] weight_push [OF new un reach]
    show ?thesis
      unfolding dfs_acyc_def dfs_weight_def st' by (simp add: stk)
  qed
qed

lemma loop_body_no_error:
  assumes inv: "dfs_inv store i s st" and ne: "stack st \<noteq> []"
    and fetch: "\<forall>e \<in> auth_chain store s. get_event store e \<noteq> None"
  shows "\<exists>st'. loop_body store b st = Inr st'"
proof -
  from ne obtain fs eid p where stk: "stack st = fs @ [(eid, p)]"
    using stack_snoc by blast
  have "(s, eid) \<in> (auth_edge store)\<^sup>*"
    using inv stk by (auto simp: dfs_inv_def inv_core_def)
  with fetch have "get_event store eid \<noteq> None"
    by (simp add: auth_chain_def)
  with stk show ?thesis
    by (cases rule: loop_body_cases [where store = store and b = b]) auto
qed

subsection \<open>Iterating the body\<close>

lemma loop_iter_invariant:
  assumes "loop_iter store b n st = Inr st'" and "P st"
    and "\<And>st st'. P st \<Longrightarrow> stack st \<noteq> [] \<Longrightarrow> loop_body store b st = Inr st' \<Longrightarrow> P st'"
  shows "P st'"
  using assms(1,2)
proof (induction n arbitrary: st)
  case 0
  then show ?case by simp
next
  case (Suc n)
  show ?case
  proof (cases "stack st = []")
    case True
    with Suc.prems show ?thesis by simp
  next
    case False
    with Suc.prems(1) obtain st1 where s1: "loop_body store b st = Inr st1"
      and rest: "loop_iter store b n st1 = Inr st'"
      by (auto split: sum.splits)
    from assms(3) [OF Suc.prems(2) False s1] have "P st1" .
    with rest show ?thesis by (rule Suc.IH)
  qed
qed

lemma loop_iter_stable:
  "finished (loop_iter store b n st) \<Longrightarrow> loop_iter store b (n + k) st = loop_iter store b n st"
proof (induction n arbitrary: st)
  case 0
  then show ?case by (cases k) auto
next
  case (Suc n)
  then show ?case by (auto split: sum.splits)
qed

lemma dfs_loop_iter:
  "finished (loop_iter store b n st) \<Longrightarrow> dfs_loop store b st = Some (loop_iter store b n st)"
proof (induction n arbitrary: st)
  case 0
  then show ?case by (subst dfs_loop.simps) simp
next
  case (Suc n)
  show ?case
  proof (cases "stack st = []")
    case True
    then show ?thesis by (subst dfs_loop.simps) simp
  next
    case False
    show ?thesis
    proof (cases "loop_body store b st")
      case (Inl err)
      with False show ?thesis by (subst dfs_loop.simps) simp
    next
      case (Inr st1)
      with False Suc.prems have "finished (loop_iter store b n st1)" by simp
      then have "dfs_loop store b st1 = Some (loop_iter store b n st1)" by (rule Suc.IH)
      with False Inr show ?thesis by (subst dfs_loop.simps) simp
    qed
  qed
qed

lemma dfs_loop_Some_iter:
  assumes "dfs_loop store b st = Some r"
  shows "\<exists>n. loop_iter store b n st = r \<and> finished r"
proof (rule dfs_loop.raw_induct
    [where P = "\<lambda>store b st r. \<exists>n. loop_iter store b n st = r \<and> finished r", OF _ assms],
    goal_cases)
  case (1 dfs_loop' store b st r)
  show ?case
  proof (cases "stack st = []")
    case True
    with 1(2) have "r = Inr st" by simp
    with True have "loop_iter store b 0 st = r \<and> finished r" by simp
    then show ?thesis by blast
  next
    case False
    show ?thesis
    proof (cases "loop_body store b st")
      case (Inl err)
      with False 1(2) have "r = Inl err" by simp
      with False Inl have "loop_iter store b (Suc 0) st = r \<and> finished r" by simp
      then show ?thesis by blast
    next
      case (Inr st1)
      with False 1(2) have "dfs_loop' store b st1 = Some r" by simp
      then obtain n where "loop_iter store b n st1 = r \<and> finished r"
        using 1(1) by blast
      with False Inr have "loop_iter store b (Suc n) st = r \<and> finished r" by simp
      then show ?thesis by blast
    qed
  qed
qed

lemma loop_iter_terminates:
  assumes acyc: "acyclic (auth_edge store)"
  shows "dfs_inv store i s st \<Longrightarrow> dfs_acyc i st \<Longrightarrow> dfs_weight store i s st \<le> n
         \<Longrightarrow> finished (loop_iter store (2 ^ i) n st)"
proof (induction n arbitrary: st)
  case 0
  then have "stack st = []"
    using weight_pos [of "stack st" store s "{e. marked i (seen st) e}"]
    by (auto simp: dfs_weight_def)
  then show ?case by simp
next
  case (Suc n)
  show ?case
  proof (cases "stack st = []")
    case True
    then show ?thesis by simp
  next
    case False
    show ?thesis
    proof (cases "loop_body store (2 ^ i) st")
      case (Inl err)
      with False show ?thesis by simp
    next
      case (Inr st1)
      from loop_body_acyc [OF acyc Suc.prems(1,2) False Inr] Suc.prems(3)
      have "dfs_acyc i st1" "dfs_weight store i s st1 \<le> n" by auto
      moreover have "dfs_inv store i s st1"
        using Suc.prems(1) False Inr by (rule loop_body_dfs_inv)
      ultimately have "finished (loop_iter store (2 ^ i) n st1)"
        using Suc.IH by blast
      with False Inr show ?thesis by simp
    qed
  qed
qed

lemma inv_core_final:
  assumes "inv_core store s M []"
  shows "M = auth_chain store s"
proof
  show "M \<subseteq> auth_chain store s"
    using assms by (auto simp: inv_core_def auth_chain_def)
  have closed: "\<And>e p. e \<in> M \<Longrightarrow> (e, p) \<in> auth_edge store \<Longrightarrow> p \<in> M"
    using assms by (auto simp: inv_core_def)
  have start: "s \<in> M"
    using assms by (simp add: inv_core_def)
  have "(s, e) \<in> (auth_edge store)\<^sup>* \<Longrightarrow> e \<in> M" for e
    by (induction rule: rtrancl_induct) (auto intro: start closed)
  then show "auth_chain store s \<subseteq> M"
    by (auto simp: auth_chain_def)
qed

lemma inv_core_fetched: "inv_core store s M stk \<Longrightarrow> e \<in> M \<Longrightarrow> get_event store e \<noteq> None"
  by (auto simp: inv_core_def)

lemma dfs_inv_start:
  assumes "fresh i st"
  shows "dfs_inv store i s (start_state st s)" and "dfs_acyc i (start_state st s)"
  using assms
  by (auto simp: dfs_inv_def dfs_acyc_def inv_core_def inv_acyc_def start_state_def fresh_def)

lemma dfs_weight_start:
  assumes "fresh i st"
  shows "Suc (dfs_weight store i s (start_state st s))
         = (\<Sum>e \<in> auth_chain store s. 2 + auth_len store e)"
proof -
  have s: "s \<in> auth_chain store s" by (simp add: auth_chain_def)
  have M: "{e. marked i (seen st) e} = {}"
    using assms by (auto simp: fresh_def)
  have "(\<Sum>e \<in> auth_chain store s. 2 + auth_len store e)
        = (2 + auth_len store s) + (\<Sum>e \<in> auth_chain store s - {s}. 2 + auth_len store e)"
    using finite_auth_chain s by (rule sum.remove)
  then show ?thesis
    by (simp add: dfs_weight_def weight_def start_state_def M)
qed

lemma loop_iter_dfs_inv:
  assumes "loop_iter store (2 ^ i) n st = Inr st'" and "dfs_inv store i s st"
  shows "dfs_inv store i s st'"
  using assms(1,2) by (rule loop_iter_invariant) (rule loop_body_dfs_inv)

lemma loop_iter_marked:
  assumes "loop_iter store (2 ^ i) n st = Inr st'"
  shows "\<forall>e j. (marked j (seen st) e \<longrightarrow> marked j (seen st') e)
               \<and> (j \<noteq> i \<longrightarrow> marked j (seen st') e = marked j (seen st) e)"
proof (rule loop_iter_invariant [OF assms])
  show "\<forall>e j. (marked j (seen st) e \<longrightarrow> marked j (seen st) e)
               \<and> (j \<noteq> i \<longrightarrow> marked j (seen st) e = marked j (seen st) e)"
    by simp
next
  fix st1 st2
  assume a: "\<forall>e j. (marked j (seen st) e \<longrightarrow> marked j (seen st1) e)
               \<and> (j \<noteq> i \<longrightarrow> marked j (seen st1) e = marked j (seen st) e)"
    and ne: "stack st1 \<noteq> []" and step: "loop_body store (2 ^ i) st1 = Inr st2"
  show "\<forall>e j. (marked j (seen st) e \<longrightarrow> marked j (seen st2) e)
               \<and> (j \<noteq> i \<longrightarrow> marked j (seen st2) e = marked j (seen st) e)"
    using a loop_body_marked [OF ne step] by metis
qed

lemma loop_iter_no_error:
  assumes fetch: "\<forall>e \<in> auth_chain store s. get_event store e \<noteq> None"
  shows "dfs_inv store i s st \<Longrightarrow> \<exists>st'. loop_iter store (2 ^ i) n st = Inr st'"
proof (induction n arbitrary: st)
  case 0
  then show ?case by simp
next
  case (Suc n)
  show ?case
  proof (cases "stack st = []")
    case True
    then show ?thesis by simp
  next
    case False
    from loop_body_no_error [OF Suc.prems False fetch]
    obtain st1 where s1: "loop_body store (2 ^ i) st = Inr st1" by blast
    have "dfs_inv store i s st1"
      using Suc.prems False s1 by (rule loop_body_dfs_inv)
    then obtain st' where "loop_iter store (2 ^ i) n st1 = Inr st'"
      using Suc.IH by blast
    with False s1 show ?thesis by simp
  qed
qed

text \<open>What a run of the loop for one start event leaves, when it leaves the loop.\<close>

lemma dfs_loop_partial:
  assumes fr: "fresh i st"
    and run: "dfs_loop store (2 ^ i) (start_state st s) = Some (Inr st')"
  shows "stack st' = []"
    and "\<forall>e j. marked j (seen st') e
           \<longleftrightarrow> marked j (seen st) e \<or> (j = i \<and> e \<in> auth_chain store s)"
    and "\<forall>e \<in> auth_chain store s. get_event store e \<noteq> None"
proof -
  from dfs_loop_Some_iter [OF run] obtain n
    where it: "loop_iter store (2 ^ i) n (start_state st s) = Inr st'" and fin: "stack st' = []"
    by auto
  show "stack st' = []" by (rule fin)
  have "dfs_inv store i s st'"
    using it dfs_inv_start(1) [OF fr] by (rule loop_iter_dfs_inv)
  then have core: "inv_core store s {e. marked i (seen st') e} []"
    by (simp add: dfs_inv_def fin)
  then have M: "{e. marked i (seen st') e} = auth_chain store s"
    by (rule inv_core_final)
  show "\<forall>e \<in> auth_chain store s. get_event store e \<noteq> None"
    using inv_core_fetched [OF core] M by blast
  have other: "\<forall>e j. j \<noteq> i \<longrightarrow> marked j (seen st') e = marked j (seen st) e"
    using loop_iter_marked [OF it] by (simp add: start_state_def)
  have none: "\<not> marked i (seen st) e" for e
    using fr by (simp add: fresh_def)
  have mine: "marked i (seen st') e \<longleftrightarrow> e \<in> auth_chain store s" for e
    using M by blast
  show "\<forall>e j. marked j (seen st') e
           \<longleftrightarrow> marked j (seen st) e \<or> (j = i \<and> e \<in> auth_chain store s)"
  proof (intro allI)
    fix e j
    show "marked j (seen st') e
           \<longleftrightarrow> marked j (seen st) e \<or> (j = i \<and> e \<in> auth_chain store s)"
      using other none [of e] mine [of e] by (cases "j = i") auto
  qed
qed

lemma dfs_loop_total:
  assumes acyc: "acyclic (auth_edge store)" and fr: "fresh i st"
    and n: "(\<Sum>e \<in> auth_chain store s. 2 + auth_len store e) \<le> Suc n"
  shows "finished (loop_iter store (2 ^ i) n (start_state st s))"
    and "dfs_loop store (2 ^ i) (start_state st s)
         = Some (loop_iter store (2 ^ i) n (start_state st s))"
proof -
  have "dfs_weight store i s (start_state st s) \<le> n"
    using dfs_weight_start [OF fr, of store s] n by simp
  with acyc dfs_inv_start [OF fr]
  show fin: "finished (loop_iter store (2 ^ i) n (start_state st s))"
    by (rule loop_iter_terminates)
  then show "dfs_loop store (2 ^ i) (start_state st s)
         = Some (loop_iter store (2 ^ i) n (start_state st s))"
    by (rule dfs_loop_iter)
qed

lemma fresh_Suc:
  assumes "fresh i st"
    and "\<forall>e j. marked j (seen st') e
           \<longleftrightarrow> marked j (seen st) e \<or> (j = i \<and> e \<in> auth_chain store s)"
  shows "fresh (Suc i) st'"
  using assms by (auto simp: fresh_def)

lemma set_edges_add: "set (edges_add x es) = insert x (set es)"
  by (simp add: edges_add_def)

lemma distinct_edges_add: "distinct es \<Longrightarrow> distinct (edges_add x es)"
  by (simp add: edges_add_def)

lemma loop_body_edges:
  assumes inv: "dfs_inv store i s st" and ed: "dfs_edges store i s E0 st"
    and ne: "stack st \<noteq> []" and step: "loop_body store (2 ^ i) st = Inr st'"
  shows "dfs_edges store i s E0 st'"
proof -
  from ne obtain fs eid p where stk: "stack st = fs @ [(eid, p)]"
    using stack_snoc by blast
  let ?M = "{e. marked i (seen st) e}"
  have reach: "eid \<in> auth_chain store s"
    using inv stk by (auto simp: dfs_inv_def inv_core_def auth_chain_def)
  have ei: "edges_inv store s E0 ?M (fs @ [(eid, p)]) (set (edges st))"
    using ed stk by (simp add: dfs_edges_def)
  from stk show ?thesis
  proof (cases rule: loop_body_cases [where store = store and b = "2 ^ i"])
    case missing
    with step show ?thesis by simp
  next
    case (mark ev)
    with step have st': "st' = st\<lparr>seen := seen_ior (seen st) eid (2 ^ i), stack := fs\<rparr>"
      by simp
    have "\<forall>pa. (eid, pa) \<in> auth_edge store \<longrightarrow> (eid, pa) \<in> set (edges st)"
    proof (intro allI impI)
      fix pa assume "(eid, pa) \<in> auth_edge store"
      then obtain q where "q < length (auth_event_ids ev)" "pa = auth_event_ids ev ! q"
        using auth_edgeD [OF _ mark(1)] by blast
      moreover have "\<forall>q<p. (eid, auth_event_ids ev ! q) \<in> set (edges st)"
        using ei mark(1) by (auto simp: edges_inv_def)
      ultimately show "(eid, pa) \<in> set (edges st)" using mark(2) by auto
    qed
    with ei have "edges_inv store s E0 (insert eid ?M) fs (set (edges st))"
      by (auto simp: edges_inv_def)
    then show ?thesis
      unfolding dfs_edges_def st' by (simp add: marked_set_ior)
  next
    case (advance ev)
    let ?pid = "auth_event_ids ev ! p"
    from advance step have st': "st' = st\<lparr>edges := edges_add (eid, ?pid) (edges st),
                 stack := fs @ [(eid, Suc p)]\<rparr>"
      by simp
    have edge: "(eid, ?pid) \<in> auth_edge store"
      using advance(1,2) by (rule auth_edgeI)
    have "edges_inv store s E0 ?M (fs @ [(eid, Suc p)]) (insert (eid, ?pid) (set (edges st)))"
      using ei edge reach advance(1) unfolding edges_inv_def
      by (auto simp: less_Suc_eq)
    then show ?thesis
      unfolding dfs_edges_def st' by (simp add: set_edges_add)
  next
    case (push ev)
    let ?pid = "auth_event_ids ev ! p"
    from push step have st': "st' = st\<lparr>edges := edges_add (eid, ?pid) (edges st),
                 stack := fs @ [(eid, p), (?pid, 0)]\<rparr>"
      by simp
    have edge: "(eid, ?pid) \<in> auth_edge store"
      using push(1,2) by (rule auth_edgeI)
    have "edges_inv store s E0 ?M (fs @ [(eid, p), (?pid, 0)]) (insert (eid, ?pid) (set (edges st)))"
      using ei edge reach unfolding edges_inv_def
      by auto
    then show ?thesis
      unfolding dfs_edges_def st' by (simp add: set_edges_add)
  qed
qed

lemma loop_body_distinct_edges:
  assumes "distinct (edges st)" and ne: "stack st \<noteq> []"
    and step: "loop_body store b st = Inr st'"
  shows "distinct (edges st')"
proof -
  from ne obtain fs eid p where stk: "stack st = fs @ [(eid, p)]"
    using stack_snoc by blast
  from stk show ?thesis
    by (cases rule: loop_body_cases [where store = store and b = b])
      (use step assms(1) in \<open>auto simp: distinct_edges_add\<close>)
qed

lemma set_update_subset: "set (AList.update k v al) \<subseteq> insert (k, v) (set al)"
  by (induction al) auto

lemma seen_get_nonneg: "seen_ok store sn \<Longrightarrow> 0 \<le> seen_get sn k 0"
  by (auto simp: seen_ok_def seen_get_def split: option.splits dest: map_of_SomeD)

lemma seen_ok_ior:
  assumes "seen_ok store sn" and "get_event store k \<noteq> None"
  shows "seen_ok store (seen_ior sn k (2 ^ i))"
proof -
  have "0 \<le> seen_get sn k 0 OR 2 ^ i"
    using seen_get_nonneg [OF assms(1)] by simp
  then show ?thesis
    using assms set_update_subset [of k "seen_get sn k 0 OR 2 ^ i" sn]
    unfolding seen_ok_def seen_ior_def by blast
qed

lemma loop_body_seen_ok:
  assumes "seen_ok store (seen st)" and ne: "stack st \<noteq> []"
    and step: "loop_body store (2 ^ i) st = Inr st'"
  shows "seen_ok store (seen st')"
proof -
  from ne obtain fs eid p where stk: "stack st = fs @ [(eid, p)]"
    using stack_snoc by blast
  from stk show ?thesis
    by (cases rule: loop_body_cases [where store = store and b = "2 ^ i"])
      (use step assms(1) in \<open>auto simp: seen_ok_ior\<close>)
qed

lemma marked_in_seen:
  assumes "marked j sn e"
  shows "(e, seen_get sn e 0) \<in> set sn"
proof (cases "map_of sn e")
  case None
  with assms show ?thesis by (simp add: marked_def seen_get_def)
next
  case (Some v)
  then show ?thesis by (auto simp: seen_get_def dest: map_of_SomeD)
qed

lemma bit_nonneg_ge:
  assumes "0 \<le> (v::int)" and "bit v j"
  shows "2 ^ j \<le> v"
proof (rule ccontr)
  assume "\<not> 2 ^ j \<le> v"
  with assms(1) have "v div 2 ^ j = 0" by simp
  with assms(2) show False by (simp add: bit_iff_odd)
qed

lemma loop_body_pushed:
  assumes acyc: "acyclic (auth_edge store)"
  shows "dfs_inv store i s st \<Longrightarrow> dfs_acyc i st
         \<Longrightarrow> distinct (pushed store (2 ^ i) n st)
             \<and> (\<forall>e \<in> set (pushed store (2 ^ i) n st).
                   \<not> marked i (seen st) e \<and> e \<notin> fst ` set (stack st))"
proof (induction n arbitrary: st)
  case 0
  then show ?case by simp
next
  case (Suc n)
  show ?case
  proof (cases "stack st = []")
    case True
    then show ?thesis by simp
  next
    case False
    then obtain fs eid p where stk: "stack st = fs @ [(eid, p)]"
      using stack_snoc by blast
    let ?M = "{e. marked i (seen st) e}"
    have core: "inv_core store s ?M (fs @ [(eid, p)])"
      using Suc.prems(1) stk by (simp add: dfs_inv_def)
    have IH: "distinct (pushed store (2 ^ i) n st')
             \<and> (\<forall>e \<in> set (pushed store (2 ^ i) n st').
                   \<not> marked i (seen st') e \<and> e \<notin> fst ` set (stack st'))"
      if "loop_body store (2 ^ i) st = Inr st'" for st'
      using Suc.IH [OF loop_body_dfs_inv [OF Suc.prems(1) False that]]
        loop_body_acyc [OF acyc Suc.prems(1,2) False that] by blast
    from stk show ?thesis
    proof (cases rule: loop_body_cases [where store = store and b = "2 ^ i"])
      case missing
      with False show ?thesis by simp
    next
      case (mark ev)
      let ?st' = "st\<lparr>seen := seen_ior (seen st) eid (2 ^ i), stack := fs\<rparr>"
      have eq: "pushed store (2 ^ i) (Suc n) st = pushed store (2 ^ i) n ?st'"
        using False mark(3) stk by simp
      show ?thesis
        unfolding eq using IH [OF mark(3)] by (auto simp: marked_ior stk)
    next
      case (advance ev)
      let ?st' = "st\<lparr>edges := edges_add (eid, auth_event_ids ev ! p) (edges st),
                 stack := fs @ [(eid, Suc p)]\<rparr>"
      have eq: "pushed store (2 ^ i) (Suc n) st = pushed store (2 ^ i) n ?st'"
        using False advance(4) stk by simp
      show ?thesis
        unfolding eq using IH [OF advance(4)] by (auto simp: stk)
    next
      case (push ev)
      let ?pid = "auth_event_ids ev ! p"
      let ?st' = "st\<lparr>edges := edges_add (eid, ?pid) (edges st),
                 stack := fs @ [(eid, p), (?pid, 0)]\<rparr>"
      have eq: "pushed store (2 ^ i) (Suc n) st = ?pid # pushed store (2 ^ i) n ?st'"
        using False push(4) stk by simp
      have edge: "(eid, ?pid) \<in> auth_edge store"
        using push(1,2) by (rule auth_edgeI)
      have un: "\<not> marked i (seen st) ?pid"
        using push(3) and_bit_test [of "seen_get (seen st) ?pid 0" i] by (simp add: marked_def)
      have new: "?pid \<notin> fst ` set (fs @ [(eid, p)])"
        using acyc core edge by (rule stack_not_above)
      show ?thesis
        unfolding eq using IH [OF push(4)] un new by (auto simp: stk)
    qed
  qed
qed

lemma dfs_loop_partial_more:
  assumes fr: "fresh i st"
    and run: "dfs_loop store (2 ^ i) (start_state st s) = Some (Inr st')"
  shows "set (edges st')
         = set (edges st) \<union> {(e, p). (e, p) \<in> auth_edge store \<and> e \<in> auth_chain store s}"
    and "distinct (edges st) \<Longrightarrow> distinct (edges st')"
    and "seen_ok store (seen st) \<Longrightarrow> seen_ok store (seen st')"
proof -
  from dfs_loop_Some_iter [OF run] obtain n
    where it: "loop_iter store (2 ^ i) n (start_state st s) = Inr st'" and fin: "stack st' = []"
    by auto
  let ?E0 = "set (edges st)"
  have e0: "dfs_edges store i s ?E0 (start_state st s)"
    using fr by (auto simp: dfs_edges_def edges_inv_def start_state_def fresh_def)
  have "dfs_inv store i s st' \<and> dfs_edges store i s ?E0 st'"
  proof (rule loop_iter_invariant [OF it])
    show "dfs_inv store i s (start_state st s) \<and> dfs_edges store i s ?E0 (start_state st s)"
      using dfs_inv_start(1) [OF fr] e0 by simp
  next
    fix st1 st2
    assume "dfs_inv store i s st1 \<and> dfs_edges store i s ?E0 st1"
      and "stack st1 \<noteq> []" and "loop_body store (2 ^ i) st1 = Inr st2"
    then show "dfs_inv store i s st2 \<and> dfs_edges store i s ?E0 st2"
      using loop_body_dfs_inv loop_body_edges by blast
  qed
  then have core: "inv_core store s {e. marked i (seen st') e} []"
    and ei: "edges_inv store s ?E0 {e. marked i (seen st') e} [] (set (edges st'))"
    by (simp_all add: dfs_inv_def dfs_edges_def fin)
  have M: "{e. marked i (seen st') e} = auth_chain store s"
    using core by (rule inv_core_final)
  show "set (edges st')
         = ?E0 \<union> {(e, p). (e, p) \<in> auth_edge store \<and> e \<in> auth_chain store s}"
    using ei unfolding M edges_inv_def by auto
  show "distinct (edges st')" if "distinct (edges st)"
  proof (rule loop_iter_invariant [OF it])
    show "distinct (edges (start_state st s))"
      using that by (simp add: start_state_def)
  qed (rule loop_body_distinct_edges)
  show "seen_ok store (seen st')" if "seen_ok store (seen st)"
  proof (rule loop_iter_invariant [OF it])
    show "seen_ok store (seen (start_state st s))"
      using that by (simp add: start_state_def)
  qed (rule loop_body_seen_ok)
qed

lemma dfs_loop_success:
  assumes acyc: "acyclic (auth_edge store)" and fr: "fresh i st"
    and fetch: "\<forall>e \<in> auth_chain store s. get_event store e \<noteq> None"
  shows "\<exists>st'. dfs_loop store (2 ^ i) (start_state st s) = Some (Inr st')"
proof -
  obtain n where n: "(\<Sum>e \<in> auth_chain store s. 2 + auth_len store e) \<le> Suc n"
    by (metis le_SucI order_refl)
  obtain st' where "loop_iter store (2 ^ i) n (start_state st s) = Inr st'"
    using loop_iter_no_error [OF fetch dfs_inv_start(1) [OF fr]] by blast
  with dfs_loop_total(2) [OF acyc fr n] show ?thesis by simp
qed

lemma summary_fresh: "summary store starts k st \<Longrightarrow> fresh k st"
  by (auto simp: summary_def fresh_def)

lemma summary_init: "summary store starts 0 init_state"
  by (simp add: summary_def init_state_def marked_def seen_get_def seen_ok_def)

lemma summary_step:
  assumes sm: "summary store starts k st"
    and run: "dfs_loop store (2 ^ k) (start_state st (starts ! k)) = Some (Inr st')"
  shows "summary store starts (Suc k) st'"
proof -
  have fr: "fresh k st" using sm by (rule summary_fresh)
  note p = dfs_loop_partial [OF fr run] and q = dfs_loop_partial_more [OF fr run]
  show ?thesis
    unfolding summary_def
  proof (intro conjI)
    show "\<forall>e j. marked j (seen st') e = (j < Suc k \<and> e \<in> auth_chain store (starts ! j))"
      using p(2) sm unfolding summary_def by (auto simp: less_Suc_eq)
    show "distinct (edges st')"
      using q(2) sm by (simp add: summary_def)
    show "set (edges st')
         = {(e, p). (e, p) \<in> auth_edge store \<and> (\<exists>j<Suc k. e \<in> auth_chain store (starts ! j))}"
      using q(1) sm unfolding summary_def by (auto simp: less_Suc_eq)
    show "seen_ok store (seen st')"
      using q(3) sm by (simp add: summary_def)
  qed
qed

lemma traverse_snoc:
  "traverse store i (xs @ [x]) st =
     (case traverse store i xs st of
        None \<Rightarrow> None
      | Some (Inl err) \<Rightarrow> Some (Inl err)
      | Some (Inr st') \<Rightarrow> dfs_loop store (2 ^ (i + length xs)) (start_state st' x))"
proof (induction xs arbitrary: i st)
  case Nil
  show ?case
    by (simp add: start_state_def split: option.splits sum.splits)
next
  case (Cons y ys)
  show ?case
    by (simp add: Cons.IH split: option.splits sum.splits)
qed

lemma traverse_take:
  assumes acyc: "acyclic (auth_edge store)"
    and fetch: "\<forall>s \<in> set starts. \<forall>e \<in> auth_chain store s. get_event store e \<noteq> None"
  shows "k \<le> length starts
         \<Longrightarrow> \<exists>st. traverse store 0 (take k starts) init_state = Some (Inr st)
                  \<and> summary store starts k st"
proof (induction k)
  case 0
  then show ?case by (simp add: summary_init)
next
  case (Suc k)
  then obtain st where tr: "traverse store 0 (take k starts) init_state = Some (Inr st)"
    and sm: "summary store starts k st"
    by auto
  have k: "k < length starts" using Suc.prems by simp
  then have "starts ! k \<in> set starts" by simp
  with fetch have "\<forall>e \<in> auth_chain store (starts ! k). get_event store e \<noteq> None"
    by blast
  from dfs_loop_success [OF acyc summary_fresh [OF sm] this]
  obtain st' where run: "dfs_loop store (2 ^ k) (start_state st (starts ! k)) = Some (Inr st')"
    by blast
  have "traverse store 0 (take (Suc k) starts) init_state = Some (Inr st')"
    using tr run k by (simp add: take_Suc_conv_app_nth traverse_snoc)
  with summary_step [OF sm run] show ?case by blast
qed

lemma traverse_summary:
  assumes "acyclic (auth_edge store)"
    and "\<forall>s \<in> set starts. \<forall>e \<in> auth_chain store s. get_event store e \<noteq> None"
  shows "\<exists>st. auth_chain_membership store starts = Some (Inr st)
              \<and> summary store starts (length starts) st"
  using traverse_take [OF assms, of "length starts"]
  by (simp add: auth_chain_membership_def)

lemma acyclic_rank:
  fixes f :: "'a \<Rightarrow> nat"
  assumes "\<And>a b. (a, b) \<in> r \<Longrightarrow> f b < f a"
  shows "acyclic r"
proof -
  have "r\<inverse> \<subseteq> measure f" using assms by auto
  then have "wf (r\<inverse>)" by (rule wf_subset [OF wf_measure])
  then have "acyclic (r\<inverse>)" by (rule wf_acyclic)
  then show ?thesis by simp
qed

lemma auth_chain_unfold:
  "auth_chain store s = insert s (\<Union>p \<in> {p. (s, p) \<in> auth_edge store}. auth_chain store p)"
proof
  show "auth_chain store s \<subseteq> insert s (\<Union>p \<in> {p. (s, p) \<in> auth_edge store}. auth_chain store p)"
    by (auto simp: auth_chain_def elim: converse_rtranclE)
  show "insert s (\<Union>p \<in> {p. (s, p) \<in> auth_edge store}. auth_chain store p) \<subseteq> auth_chain store s"
    by (auto simp: auth_chain_def intro: converse_rtrancl_into_rtrancl)
qed

lemma chain_store_edges: "auth_edge chain_store = {(''A'', ''B''), (''B'', ''C'')}"
  by (auto simp: auth_edge_def get_event_def chain_store_def mk_event_def split: if_splits)

lemma chain_store_acyclic: "acyclic (auth_edge chain_store)"
  by (rule acyclic_rank [where f = chain_rank]) (auto simp: chain_store_edges chain_rank_def)

lemma chain_store_C: "auth_chain chain_store ''C'' = {''C''}"
  by (subst auth_chain_unfold) (simp add: chain_store_edges)

lemma chain_store_B: "auth_chain chain_store ''B'' = {''B'', ''C''}"
  by (subst auth_chain_unfold) (simp add: chain_store_edges chain_store_C)

lemma chain_store_A: "auth_chain chain_store ''A'' = {''A'', ''B'', ''C''}"
  by (subst auth_chain_unfold) (simp add: chain_store_edges chain_store_B)

lemma chain_store_fetch:
  "\<forall>s \<in> set [''A'', ''B'']. \<forall>e \<in> auth_chain chain_store s. get_event chain_store e \<noteq> None"
  by (simp add: chain_store_A chain_store_B) (simp add: get_event_def chain_store_def)

lemma int_eq_3: "(\<forall>j. bit (v::int) j \<longleftrightarrow> j < 2) \<Longrightarrow> v = 3"
proof -
  assume a: "\<forall>j. bit v j \<longleftrightarrow> j < 2"
  have m: "mask 2 = (3::int)" by (simp add: mask_eq_exp_minus_1)
  have "bit (mask 2 :: int) j \<longleftrightarrow> j < 2" for j by (simp add: bit_mask_iff)
  then have "bit (3::int) j \<longleftrightarrow> j < 2" for j unfolding m .
  with a show ?thesis by (simp add: bit_eq_iff)
qed

lemma int_eq_1: "(\<forall>j. bit (v::int) j \<longleftrightarrow> j = 0) \<Longrightarrow> v = 1"
  by (rule bit_eqI) (simp add: bit_1_iff)

text \<open>
  C1. On an acyclic auth graph in which every event in the auth chain of a start event can
  be fetched, the traversal over the start events returns, and in the \<open>seen\<close> it leaves,
  bit \<open>i\<close> of \<open>seen[e]\<close> is set if and only if \<open>i\<close> is the position of a start event from which
  \<open>e\<close> is reachable by zero or more auth event edges. In particular every start event
  carries the bit of its own position.
\<close>

theorem membership_bits_correct:
  assumes "acyclic (auth_edge store)"
    and "\<forall>s \<in> set starts. \<forall>e \<in> auth_chain store s. get_event store e \<noteq> None"
  shows "\<exists>st. auth_chain_membership store starts = Some (Inr st)
              \<and> (\<forall>e i. bit (seen_get (seen st) e 0) i
                    \<longleftrightarrow> i < length starts \<and> (starts ! i, e) \<in> (auth_edge store)\<^sup>*)
              \<and> list_all (\<lambda>(i, s). bit (seen_get (seen st) s 0) i) (enumerate 0 starts)"
proof -
  from traverse_summary [OF assms] obtain st
    where run: "auth_chain_membership store starts = Some (Inr st)"
      and sm: "summary store starts (length starts) st"
    by blast
  have "\<forall>e i. bit (seen_get (seen st) e 0) i
          \<longleftrightarrow> i < length starts \<and> (starts ! i, e) \<in> (auth_edge store)\<^sup>*"
    using sm by (simp add: summary_def marked_def auth_chain_def)
  moreover from this
  have "list_all (\<lambda>(i, s). bit (seen_get (seen st) s 0) i) (enumerate 0 starts)"
    by (auto simp: list_all_iff in_set_enumerate_eq)
  ultimately show ?thesis using run by blast
qed

theorem membership_bits_correct_witness:
  "auth_chain_membership chain_store [''A'', ''B'']
     = Some (Inr \<lparr>seen = [(''C'', 3), (''B'', 3), (''A'', 1)],
                  edges = [(''B'', ''C''), (''A'', ''B'')], stack = []\<rparr>)
   \<and> bit (3 :: int) 1 \<and> (''B'', ''C'') \<in> (auth_edge chain_store)\<^sup>*
   \<and> \<not> bit (1 :: int) 1 \<and> (''B'', ''A'') \<notin> (auth_edge chain_store)\<^sup>*"
proof -
  have run: "auth_chain_membership chain_store [''A'', ''B'']
     = Some (Inr \<lparr>seen = [(''C'', 3), (''B'', 3), (''A'', 1)],
                  edges = [(''B'', ''C''), (''A'', ''B'')], stack = []\<rparr>)"
    by code_simp
  from membership_bits_correct [OF chain_store_acyclic chain_store_fetch]
  have "\<forall>e i. bit (seen_get [(''C'', 3), (''B'', 3), (''A'', 1)] e 0) i
          \<longleftrightarrow> i < 2 \<and> ([''A'', ''B''] ! i, e) \<in> (auth_edge chain_store)\<^sup>*"
    unfolding run by (simp add: numeral_2_eq_2)
  then have bits: "bit (seen_get [(''C'', 3), (''B'', 3), (''A'', 1)] e 0) i
          \<longleftrightarrow> i < 2 \<and> ([''A'', ''B''] ! i, e) \<in> (auth_edge chain_store)\<^sup>*" for e i
    by blast
  have "bit (3 :: int) 1 \<and> (''B'', ''C'') \<in> (auth_edge chain_store)\<^sup>*"
    using bits [of "''C''" 1] by (simp add: seen_get_def)
  moreover have "\<not> bit (1 :: int) 1 \<and> (''B'', ''A'') \<notin> (auth_edge chain_store)\<^sup>*"
    using bits [of "''A''" 1] by (simp add: seen_get_def)
  ultimately show ?thesis using run by simp
qed

text \<open>
  C2. For the start list \<open>[A, B]\<close> where the auth chain of \<open>B\<close> is a strict subset of the
  auth chain of \<open>A\<close> (an auth chain holding its own start event, as the traversal marks it),
  every event of \<open>B\<close>'s chain ends with exactly bits 0 and 1 set (the value 3), and every
  event that is only in \<open>A\<close>'s chain with exactly bit 0 set (the value 1).
\<close>

theorem subset_of_chains:
  assumes "acyclic (auth_edge store)"
    and "\<forall>e \<in> auth_chain store A. get_event store e \<noteq> None"
    and "auth_chain store B \<subset> auth_chain store A"
  shows "\<exists>st. auth_chain_membership store [A, B] = Some (Inr st)
              \<and> (\<forall>e \<in> auth_chain store B. seen_get (seen st) e 0 = 3)
              \<and> (\<forall>e \<in> auth_chain store A - auth_chain store B. seen_get (seen st) e 0 = 1)"
proof -
  have fetch: "\<forall>s \<in> set [A, B]. \<forall>e \<in> auth_chain store s. get_event store e \<noteq> None"
    using assms(2,3) by auto
  from traverse_summary [OF assms(1) fetch] obtain st
    where run: "auth_chain_membership store [A, B] = Some (Inr st)"
      and sm: "summary store [A, B] (length [A, B]) st"
    by blast
  have bits: "bit (seen_get (seen st) e 0) j \<longleftrightarrow> j < 2 \<and> e \<in> auth_chain store ([A, B] ! j)"
    for e j
    using sm by (simp add: summary_def marked_def numeral_2_eq_2)
  have both: "seen_get (seen st) e 0 = 3" if "e \<in> auth_chain store B" for e
  proof (rule int_eq_3, intro allI)
    fix j
    have "e \<in> auth_chain store A" using that assms(3) by auto
    with that show "bit (seen_get (seen st) e 0) j \<longleftrightarrow> j < 2"
      using bits [of e j] by (cases j) (auto simp: less_Suc_eq)
  qed
  have only: "seen_get (seen st) e 0 = 1"
    if "e \<in> auth_chain store A - auth_chain store B" for e
  proof (rule int_eq_1, intro allI)
    fix j
    show "bit (seen_get (seen st) e 0) j \<longleftrightarrow> j = 0"
      using bits [of e j] that by (cases j) (auto simp: less_Suc_eq)
  qed
  from run both only show ?thesis by blast
qed

theorem subset_of_chains_witness:
  "auth_chain chain_store ''B'' \<subset> auth_chain chain_store ''A''
   \<and> ''C'' \<in> auth_chain chain_store ''B''
   \<and> ''A'' \<in> auth_chain chain_store ''A'' - auth_chain chain_store ''B''
   \<and> (\<exists>st. auth_chain_membership chain_store [''A'', ''B''] = Some (Inr st)
          \<and> seen_get (seen st) ''C'' 0 = 3 \<and> seen_get (seen st) ''A'' 0 = 1)"
proof -
  have fetch: "\<forall>e \<in> auth_chain chain_store ''A''. get_event chain_store e \<noteq> None"
    using chain_store_fetch by simp
  have c: "''C'' \<in> auth_chain chain_store ''B''"
    and a: "''A'' \<in> auth_chain chain_store ''A'' - auth_chain chain_store ''B''"
    by (simp_all add: chain_store_A chain_store_B)
  have "auth_chain chain_store ''B'' \<subseteq> auth_chain chain_store ''A''"
    by (simp add: chain_store_A chain_store_B)
  with a have sub: "auth_chain chain_store ''B'' \<subset> auth_chain chain_store ''A''"
    by blast
  from subset_of_chains [OF chain_store_acyclic fetch sub] obtain st
    where run: "auth_chain_membership chain_store [''A'', ''B''] = Some (Inr st)"
      and b3: "\<forall>e \<in> auth_chain chain_store ''B''. seen_get (seen st) e 0 = 3"
      and a1: "\<forall>e \<in> auth_chain chain_store ''A'' - auth_chain chain_store ''B''.
                 seen_get (seen st) e 0 = 1"
    by blast
  from b3 c have "seen_get (seen st) ''C'' 0 = 3" by (rule bspec)
  moreover from a1 a have "seen_get (seen st) ''A'' 0 = 1" by (rule bspec)
  ultimately show ?thesis using run sub c a by blast
qed

lemma loop_body_error: "loop_body store b st = Inl err \<Longrightarrow> err = AssertionError"
  by (auto simp: loop_body_def Let_def split: prod.splits option.splits if_splits)

lemma loop_iter_error: "loop_iter store b n st = Inl err \<Longrightarrow> err = AssertionError"
proof (induction n arbitrary: st)
  case 0
  then show ?case by simp
next
  case (Suc n)
  then show ?case
    by (auto split: if_splits sum.splits dest: loop_body_error)
qed

lemma dfs_loop_error: "dfs_loop store b st = Some (Inl err) \<Longrightarrow> err = AssertionError"
  using dfs_loop_Some_iter loop_iter_error by blast

lemma traverse_error:
  "traverse store k starts st = Some (Inl err) \<Longrightarrow> err = AssertionError"
proof (induction starts arbitrary: k st)
  case Nil
  then show ?case by simp
next
  case (Cons s rest)
  then show ?case
    by (auto split: option.splits sum.splits dest: dfs_loop_error)
qed

lemma traverse_partial:
  "fresh k st \<Longrightarrow> traverse store k starts st = Some (Inr st')
   \<Longrightarrow> \<forall>s \<in> set starts. \<forall>e \<in> auth_chain store s. get_event store e \<noteq> None"
proof (induction starts arbitrary: k st)
  case Nil
  then show ?case by simp
next
  case (Cons s rest)
  from Cons.prems(2) obtain st1
    where run: "dfs_loop store (2 ^ k) (start_state st s) = Some (Inr st1)"
      and tl: "traverse store (Suc k) rest st1 = Some (Inr st')"
    by (auto simp: start_state_def split: option.splits sum.splits)
  note p = dfs_loop_partial [OF Cons.prems(1) run]
  have "fresh (Suc k) st1"
    using Cons.prems(1) p(2) by (rule fresh_Suc)
  from Cons.IH [OF this tl] p(3) show ?case by simp
qed

lemma traverse_total:
  assumes acyc: "acyclic (auth_edge store)"
  shows "fresh k st \<Longrightarrow> \<exists>r. traverse store k starts st = Some r"
proof (induction starts arbitrary: k st)
  case Nil
  then show ?case by simp
next
  case (Cons s rest)
  obtain n where n: "(\<Sum>e \<in> auth_chain store s. 2 + auth_len store e) \<le> Suc n"
    by (metis le_SucI order_refl)
  let ?r = "loop_iter store (2 ^ k) n (start_state st s)"
  have run: "dfs_loop store (2 ^ k) (start_state st s) = Some ?r"
    using acyc Cons.prems n by (rule dfs_loop_total(2))
  show ?case
  proof (cases ?r)
    case (Inl err)
    with run show ?thesis by (simp add: start_state_def)
  next
    case (Inr st1)
    with run have run1: "dfs_loop store (2 ^ k) (start_state st s) = Some (Inr st1)" by simp
    have "fresh (Suc k) st1"
      using Cons.prems dfs_loop_partial(2) [OF Cons.prems run1] by (rule fresh_Suc)
    from Cons.IH [OF this] obtain r where "traverse store (Suc k) rest st1 = Some r" by blast
    with run1 show ?thesis by (simp add: start_state_def)
  qed
qed

lemma fresh_init: "fresh 0 init_state"
  by (simp add: fresh_def init_state_def marked_def seen_get_def)

lemma dfs_loop_missing_top:
  assumes "stack st = fs @ [(e, p)]" and "get_event store e = None"
  shows "dfs_loop store b st = Some (Inl AssertionError)"
proof -
  have "loop_body store b st = Inl AssertionError"
    using assms by (simp add: loop_body_def)
  with assms(1) show ?thesis
    by (subst dfs_loop.simps) simp
qed

text \<open>
  C4. If an event in the auth chain of a start event (the start event itself or an event
  reached through auth events) is not in the event store, the traversal never returns a
  membership map: on an acyclic auth graph it ends with the failed assertion, and whenever
  the missing event is on top of the stack the loop raises there and then. So does
  \<open>dump_auth_chains\<close> as a whole.
\<close>

theorem missing_event_fatal:
  assumes "s \<in> set starts" and "e \<in> auth_chain store s" and "get_event store e = None"
  shows "(\<forall>st. auth_chain_membership store starts \<noteq> Some (Inr st))
         \<and> (\<forall>g. dump_auth_chains q store starts \<noteq> Some (Inr g))
         \<and> (acyclic (auth_edge store)
              \<longrightarrow> auth_chain_membership store starts = Some (Inl AssertionError)
                  \<and> dump_auth_chains q store starts = Some (Inl AssertionError))
         \<and> (\<forall>b st fs p. stack st = fs @ [(e, p)]
              \<longrightarrow> dfs_loop store b st = Some (Inl AssertionError))"
proof -
  have no: "auth_chain_membership store starts \<noteq> Some (Inr st)" for st
  proof
    assume "auth_chain_membership store starts = Some (Inr st)"
    then have "traverse store 0 starts init_state = Some (Inr st)"
      by (simp add: auth_chain_membership_def)
    from traverse_partial [OF fresh_init this] assms show False by blast
  qed
  have nog: "dump_auth_chains q store starts \<noteq> Some (Inr g)" for g
    using no by (auto simp: dump_auth_chains_def split: option.splits sum.splits)
  have ac: "auth_chain_membership store starts = Some (Inl AssertionError)"
    if "acyclic (auth_edge store)"
  proof -
    from traverse_total [OF that fresh_init] obtain r
      where r: "auth_chain_membership store starts = Some r"
      unfolding auth_chain_membership_def by blast
    show ?thesis
    proof (cases r)
      case (Inl err)
      with r traverse_error [of store 0 starts init_state err] show ?thesis
        by (simp add: auth_chain_membership_def)
    next
      case (Inr st)
      with r no show ?thesis by simp
    qed
  qed
  have top: "dfs_loop store b st = Some (Inl AssertionError)"
    if "stack st = fs @ [(e, p)]" for b st fs p
    using that assms(3) by (rule dfs_loop_missing_top)
  from no nog ac top show ?thesis
    by (simp add: dump_auth_chains_def)
qed

lemma dangling_store_edges: "auth_edge dangling_store = {(''A'', ''B'')}"
  by (auto simp: auth_edge_def get_event_def dangling_store_def mk_event_def split: if_splits)

lemma dangling_store_acyclic: "acyclic (auth_edge dangling_store)"
  by (rule acyclic_rank [where f = chain_rank]) (auto simp: dangling_store_edges chain_rank_def)

theorem missing_event_fatal_witness:
  "''A'' \<in> set [''A''] \<and> ''B'' \<in> auth_chain dangling_store ''A''
   \<and> get_event dangling_store ''B'' = None
   \<and> acyclic (auth_edge dangling_store)
   \<and> auth_chain_membership dangling_store [''A''] = Some (Inl AssertionError)
   \<and> dump_auth_chains id dangling_store [''A''] = Some (Inl AssertionError)
   \<and> dfs_loop dangling_store 1
        \<lparr>seen = [], edges = [(''A'', ''B'')], stack = [(''A'', 0), (''B'', 0)]\<rparr>
       = Some (Inl AssertionError)"
proof -
  have a: "''A'' \<in> set [''A'']" by simp
  have b: "''B'' \<in> auth_chain dangling_store ''A''"
    by (subst auth_chain_unfold) (simp add: dangling_store_edges auth_chain_def)
  have c: "get_event dangling_store ''B'' = None"
    by (simp add: get_event_def dangling_store_def)
  note th = missing_event_fatal [OF a b c, of id]
  let ?st = "\<lparr>seen = [], edges = [(''A'', ''B'')], stack = [(''A'', 0), (''B'', 0)]\<rparr>"
  have "stack ?st = [(''A'', 0)] @ [(''B'', 0)]" by simp
  with th have top: "dfs_loop dangling_store 1 ?st = Some (Inl AssertionError)"
    by blast
  from th dangling_store_acyclic a b c top
  show ?thesis by blast
qed

lemma py_index_colors_ok: "py_index colors v = Inr c \<Longrightarrow> - 4 \<le> v \<and> v \<le> 3"
  by (auto simp: py_index_def colors_def Let_def split: if_splits)

lemma py_index_colors_fail: "4 \<le> v \<Longrightarrow> py_index colors v = Inl IndexError"
  by (simp add: py_index_def colors_def Let_def)

lemma py_index_error: "py_index xs v = Inl err \<Longrightarrow> err = IndexError"
  by (auto simp: py_index_def Let_def split: if_splits)

lemma add_nodes_ok:
  "add_nodes q store sn g = Inr ns \<Longrightarrow> \<forall>(k, v) \<in> set sn. v \<le> 3"
proof (induction sn arbitrary: g)
  case Nil
  then show ?case by simp
next
  case (Cons x sn)
  obtain k v where x: "x = (k, v)" by (cases x)
  from Cons.prems obtain event c where "py_index colors v = Inr c"
    and "add_nodes q store sn (g @ [node q event c]) = Inr ns"
    by (auto simp: x split: option.splits sum.splits)
  then show ?case
    using Cons.IH py_index_colors_ok by (auto simp: x)
qed

lemma add_nodes_fail:
  "\<forall>(k, v) \<in> set sn. get_event store k \<noteq> None \<Longrightarrow> (k, v) \<in> set sn \<Longrightarrow> 4 \<le> v
   \<Longrightarrow> add_nodes q store sn g = Inl IndexError"
proof (induction sn arbitrary: g)
  case Nil
  then show ?case by simp
next
  case (Cons x sn)
  obtain k' v' where x: "x = (k', v')" by (cases x)
  from Cons.prems(1) obtain event where ev: "get_event store k' = Some event"
    by (auto simp: x)
  show ?case
  proof (cases "py_index colors v'")
    case (Inl err)
    then have "err = IndexError" by (rule py_index_error)
    with Inl ev show ?thesis by (simp add: x)
  next
    case (Inr c)
    then have "v' \<le> 3" using py_index_colors_ok by blast
    with Cons.prems(2,3) have "(k, v) \<in> set sn" by (auto simp: x)
    with Cons.prems(1,3) have "add_nodes q store sn (g @ [node q event c]) = Inl IndexError"
      using Cons.IH by simp
    with Inr ev show ?thesis by (simp add: x)
  qed
qed

lemma chain_store_fetch3:
  "\<forall>s \<in> set [''A'', ''B'', ''C'']. \<forall>e \<in> auth_chain chain_store s. get_event chain_store e \<noteq> None"
  by (simp add: chain_store_A chain_store_B chain_store_C) (simp add: get_event_def chain_store_def)

text \<open>
  C9. The node colour is \<^verbatim>\<open>colors[bitmask]\<close> on a list of four colours. Whenever
  \<open>dump_auth_chains\<close> returns a graph, every bitmap that the traversal left in \<open>seen\<close> is at
  most 3. With three or more start events, on an acyclic auth graph whose events can all be
  fetched, an event in the auth chain of the third or a later start makes the colour lookup
  raise \<open>IndexError\<close>.
\<close>

theorem colour_lookup_bound:
  "(dump_auth_chains q store starts = Some (Inr g)
      \<longrightarrow> (\<exists>st. auth_chain_membership store starts = Some (Inr st)
               \<and> (\<forall>(eid, bitmask) \<in> set (seen st). bitmask \<le> 3)))
   \<and> (acyclic (auth_edge store)
        \<and> (\<forall>s \<in> set starts. \<forall>e \<in> auth_chain store s. get_event store e \<noteq> None)
        \<and> 2 \<le> i \<and> i < length starts \<and> e \<in> auth_chain store (starts ! i)
      \<longrightarrow> dump_auth_chains q store starts = Some (Inl IndexError))"
proof (intro conjI impI)
  assume "dump_auth_chains q store starts = Some (Inr g)"
  then obtain st ns where run: "auth_chain_membership store starts = Some (Inr st)"
    and ns: "add_nodes q store (seen st) [] = Inr ns"
    by (auto simp: dump_auth_chains_def split: option.splits sum.splits)
  from add_nodes_ok [OF ns] run
  show "\<exists>st. auth_chain_membership store starts = Some (Inr st)
             \<and> (\<forall>(eid, bitmask) \<in> set (seen st). bitmask \<le> 3)"
    by blast
next
  assume a: "acyclic (auth_edge store)
        \<and> (\<forall>s \<in> set starts. \<forall>e \<in> auth_chain store s. get_event store e \<noteq> None)
        \<and> 2 \<le> i \<and> i < length starts \<and> e \<in> auth_chain store (starts ! i)"
  then obtain st where run: "auth_chain_membership store starts = Some (Inr st)"
    and sm: "summary store starts (length starts) st"
    using traverse_summary by blast
  have mk: "marked i (seen st) e"
    using sm a by (simp add: summary_def)
  have ok: "seen_ok store (seen st)"
    using sm by (simp add: summary_def)
  let ?v = "seen_get (seen st) e 0"
  have mem: "(e, ?v) \<in> set (seen st)"
    using mk by (rule marked_in_seen)
  have "0 \<le> ?v" using ok by (rule seen_get_nonneg)
  then have "2 ^ i \<le> ?v"
    using mk unfolding marked_def by (rule bit_nonneg_ge)
  moreover have "(2::int) ^ 2 \<le> 2 ^ i"
    using a by (intro power_increasing) simp_all
  ultimately have big: "4 \<le> ?v" by simp
  have "\<forall>(k, v) \<in> set (seen st). get_event store k \<noteq> None"
    using ok by (auto simp: seen_ok_def)
  from add_nodes_fail [OF this mem big]
  have "add_nodes q store (seen st) [] = Inl IndexError" .
  with run show "dump_auth_chains q store starts = Some (Inl IndexError)"
    by (simp add: dump_auth_chains_def)
qed

theorem colour_lookup_bound_witness:
  "dump_auth_chains id chain_store [''A'', ''B''] = Some (Inr chain_graph)
   \<and> (\<exists>st. auth_chain_membership chain_store [''A'', ''B''] = Some (Inr st)
          \<and> list_all (\<lambda>(eid, bitmask). bitmask \<le> 3) (seen st))
   \<and> acyclic (auth_edge chain_store)
   \<and> (2::nat) \<le> 2 \<and> 2 < length [''A'', ''B'', ''C'']
   \<and> ''C'' \<in> auth_chain chain_store ([''A'', ''B'', ''C''] ! 2)
   \<and> dump_auth_chains id chain_store [''A'', ''B'', ''C''] = Some (Inl IndexError)"
proof -
  have ok: "dump_auth_chains id chain_store [''A'', ''B''] = Some (Inr chain_graph)"
    by code_simp
  have c: "''C'' \<in> auth_chain chain_store ([''A'', ''B'', ''C''] ! 2)"
    by (simp add: chain_store_C)
  have l: "(2::nat) \<le> 2 \<and> 2 < length [''A'', ''B'', ''C'']" by simp
  from colour_lookup_bound [of id chain_store "[''A'', ''B'']" chain_graph] ok
  have one: "\<exists>st. auth_chain_membership chain_store [''A'', ''B''] = Some (Inr st)
          \<and> list_all (\<lambda>(eid, bitmask). bitmask \<le> 3) (seen st)"
    by (simp add: list_all_iff)
  from colour_lookup_bound [of id chain_store "[''A'', ''B'', ''C'']" _ 2 "''C''"]
    chain_store_acyclic chain_store_fetch3 c l
  have two: "dump_auth_chains id chain_store [''A'', ''B'', ''C''] = Some (Inl IndexError)"
    by blast
  from ok one two chain_store_acyclic c l show ?thesis by blast
qed

lemma sum_two_plus:
  "(\<Sum>e \<in> A. 2 + f e) = 2 * card A + (\<Sum>e \<in> A. (f e :: nat))"
proof -
  have "(\<Sum>e \<in> A. 2 + f e) = (\<Sum>e \<in> A. 2) + (\<Sum>e \<in> A. f e)"
    by (rule sum.distrib)
  also have "(\<Sum>e \<in> A. (2::nat)) = 2 * card A" by simp
  finally show ?thesis .
qed

lemma work_bound_Suc:
  "Suc (work_bound store s) = (\<Sum>e \<in> auth_chain store s. 2 + auth_len store e)"
proof -
  have "s \<in> auth_chain store s" by (simp add: auth_chain_def)
  then have "0 < card (auth_chain store s)"
    using finite_auth_chain by (auto simp: card_gt_0_iff)
  then show ?thesis
    unfolding work_bound_def sum_two_plus by linarith
qed

lemma loop_iter_acyc:
  assumes acyc: "acyclic (auth_edge store)"
    and it: "loop_iter store (2 ^ i) n st = Inr st'"
    and inv: "dfs_inv store i s st" "dfs_acyc i st"
  shows "dfs_inv store i s st' \<and> dfs_acyc i st'"
proof (rule loop_iter_invariant [OF it])
  show "dfs_inv store i s st \<and> dfs_acyc i st" using inv by simp
next
  fix st1 st2
  assume "dfs_inv store i s st1 \<and> dfs_acyc i st1" "stack st1 \<noteq> []"
    "loop_body store (2 ^ i) st1 = Inr st2"
  then show "dfs_inv store i s st2 \<and> dfs_acyc i st2"
    using loop_body_dfs_inv loop_body_acyc [OF acyc] by blast
qed

lemma list_update_last: "(fs @ [x])[length (fs @ [x]) - 1 := y] = fs @ [y]"
  by simp

lemma spec_mark_ior: "spec_mark sn e i = seen_ior sn e (2 ^ i)"
  by (simp add: spec_mark_def seen_ior_def set_bit_eq_or)

lemma loop_body_spec:
  assumes ne: "stack st \<noteq> []"
  shows "loop_body store (push_bit i 1) st = spec_step store i st"
proof -
  from ne obtain fs eid p where stk: "stack st = fs @ [(eid, p)]"
    using stack_snoc by blast
  from stk show ?thesis
  proof (cases rule: loop_body_cases [where store = store and b = "2 ^ i"])
    case missing
    then show ?thesis by (simp add: spec_step_def stk)
  next
    case (mark ev)
    then show ?thesis by (simp add: spec_step_def stk spec_mark_ior)
  next
    case (advance ev)
    then show ?thesis by (simp add: spec_step_def stk Let_def and_bit_test)
  next
    case (push ev)
    then have "\<not> bit (seen_get (seen st) (auth_event_ids ev ! p) 0) i"
      using and_bit_test [of "seen_get (seen st) (auth_event_ids ev ! p) 0" i] by simp
    with push show ?thesis by (simp add: spec_step_def stk Let_def)
  qed
qed

text \<open>
  C3. The traversal for start \<open>i\<close> is a loop over an explicit stack of frames
  \<open>(event, next auth index)\<close>: while the stack is not empty it runs one step on the top frame,
  and that step is the step of the specification: all auth events visited, mark the event
  with bit \<open>i\<close> and pop; auth event at the index already marked with bit \<open>i\<close>, advance the
  index; otherwise push the auth event as a new frame.
\<close>

theorem traversal_steps:
  "dfs_loop store (push_bit i 1) st =
     (if stack st = [] then Some (Inr st)
      else (case spec_step store i st of
              Inl err \<Rightarrow> Some (Inl err)
            | Inr st' \<Rightarrow> dfs_loop store (push_bit i 1) st'))
   \<and> (stack st \<noteq> [] \<longrightarrow> loop_body store (push_bit i 1) st = spec_step store i st)
   \<and> traverse store i (start # rest) st0 =
       (case dfs_loop store (push_bit i 1) (st0\<lparr>stack := [(start, 0)]\<rparr>) of
          None \<Rightarrow> None
        | Some (Inl err) \<Rightarrow> Some (Inl err)
        | Some (Inr st') \<Rightarrow> traverse store (Suc i) rest st')"
proof (intro conjI impI)
  show "dfs_loop store (push_bit i 1) st =
     (if stack st = [] then Some (Inr st)
      else (case spec_step store i st of
              Inl err \<Rightarrow> Some (Inl err)
            | Inr st' \<Rightarrow> dfs_loop store (push_bit i 1) st'))"
  proof (cases "stack st = []")
    case True
    then show ?thesis by (subst dfs_loop.simps) simp
  next
    case False
    then show ?thesis
      by (subst dfs_loop.simps) (simp only: loop_body_spec [OF False] if_False)
  qed
next
  assume "stack st \<noteq> []"
  then show "loop_body store (push_bit i 1) st = spec_step store i st"
    by (rule loop_body_spec)
next
  show "traverse store i (start # rest) st0 =
       (case dfs_loop store (push_bit i 1) (st0\<lparr>stack := [(start, 0)]\<rparr>) of
          None \<Rightarrow> None
        | Some (Inl err) \<Rightarrow> Some (Inl err)
        | Some (Inr st') \<Rightarrow> traverse store (Suc i) rest st')"
    by (simp only: traverse.simps)
qed

theorem traversal_steps_witness:
  "stack \<lparr>seen = [(''C'', 1)], edges = [], stack = [(''A'', 0), (''B'', 0)]\<rparr> \<noteq> []
   \<and> loop_body chain_store (push_bit 0 1)
        \<lparr>seen = [(''C'', 1)], edges = [], stack = [(''A'', 0), (''B'', 0)]\<rparr>
      = Inr \<lparr>seen = [(''C'', 1)], edges = [(''B'', ''C'')], stack = [(''A'', 0), (''B'', 1)]\<rparr>
   \<and> spec_step chain_store 0
        \<lparr>seen = [(''C'', 1)], edges = [], stack = [(''A'', 0), (''B'', 0)]\<rparr>
      = Inr \<lparr>seen = [(''C'', 1)], edges = [(''B'', ''C'')], stack = [(''A'', 0), (''B'', 1)]\<rparr>"
proof -
  let ?st = "\<lparr>seen = [(''C'', 1)], edges = [], stack = [(''A'', 0), (''B'', 0)]\<rparr>"
  have ne: "stack ?st \<noteq> []" by simp
  have sp: "spec_step chain_store 0 ?st
      = Inr \<lparr>seen = [(''C'', 1)], edges = [(''B'', ''C'')], stack = [(''A'', 0), (''B'', 1)]\<rparr>"
    by code_simp
  from traversal_steps [of chain_store 0 ?st] ne
  have "loop_body chain_store (push_bit 0 1) ?st = spec_step chain_store 0 ?st"
    by blast
  with sp ne show ?thesis by simp
qed

text \<open>
  C5. On an acyclic auth graph whose events can all be fetched, the loop for the start event
  at position \<open>i\<close>, entered in the state that the earlier start events left, leaves the loop
  after at most \<open>2 * |chain| + |auth entries of the chain| - 1\<close> iterations, where
  \<open>chain\<close> is the auth chain of that start event: linear in the auth edges of the chain for
  each start. The events pushed during that loop are pairwise different and different from
  the start event, and an event that carries bit \<open>i\<close> at some moment is not pushed afterwards.
\<close>

theorem bounded_retraversal:
  assumes acyc: "acyclic (auth_edge store)"
    and fetch: "\<forall>s \<in> set starts. \<forall>e \<in> auth_chain store s. get_event store e \<noteq> None"
    and i: "i < length starts"
  shows "\<exists>st. traverse store 0 (take i starts) init_state = Some (Inr st)
     \<and> (\<exists>st'. loop_iter store (push_bit i 1) (work_bound store (starts ! i))
                 (st\<lparr>stack := [(starts ! i, 0)]\<rparr>) = Inr st'
              \<and> stack st' = []
              \<and> dfs_loop store (push_bit i 1) (st\<lparr>stack := [(starts ! i, 0)]\<rparr>) = Some (Inr st'))
     \<and> (\<forall>n. distinct (starts ! i # pushed store (push_bit i 1) n (st\<lparr>stack := [(starts ! i, 0)]\<rparr>)))
     \<and> (\<forall>n m st1. loop_iter store (push_bit i 1) n (st\<lparr>stack := [(starts ! i, 0)]\<rparr>) = Inr st1
           \<longrightarrow> (\<forall>e \<in> set (pushed store (push_bit i 1) m st1).
                  \<not> bit (seen_get (seen st1) e 0) i))"
proof -
  let ?s = "starts ! i"
  from traverse_take [OF acyc fetch, of i] i obtain st
    where tr: "traverse store 0 (take i starts) init_state = Some (Inr st)"
      and sm: "summary store starts i st"
    by auto
  have fr: "fresh i st" using sm by (rule summary_fresh)
  let ?st0 = "start_state st ?s"
  have st0: "st\<lparr>stack := [(?s, 0)]\<rparr> = ?st0" by (simp add: start_state_def)
  have inv0: "dfs_inv store i ?s ?st0" "dfs_acyc i ?st0"
    using dfs_inv_start [OF fr] by simp_all
  have fetch_s: "\<forall>e \<in> auth_chain store ?s. get_event store e \<noteq> None"
    using fetch i by (meson nth_mem)
  have n: "(\<Sum>e \<in> auth_chain store ?s. 2 + auth_len store e) \<le> Suc (work_bound store ?s)"
    by (simp add: work_bound_Suc)
  note tot = dfs_loop_total [OF acyc fr n]
  obtain st' where it: "loop_iter store (2 ^ i) (work_bound store ?s) ?st0 = Inr st'"
    using loop_iter_no_error [OF fetch_s inv0(1)] by blast
  have a: "\<exists>st'. loop_iter store (2 ^ i) (work_bound store ?s) ?st0 = Inr st'
              \<and> stack st' = [] \<and> dfs_loop store (2 ^ i) ?st0 = Some (Inr st')"
    using tot it by auto
  have b: "distinct (?s # pushed store (2 ^ i) n ?st0)" for n
    using loop_body_pushed [OF acyc inv0, of n] by (auto simp: start_state_def)
  have c: "\<forall>e \<in> set (pushed store (2 ^ i) m st1). \<not> bit (seen_get (seen st1) e 0) i"
    if "loop_iter store (2 ^ i) n ?st0 = Inr st1" for n m st1
  proof -
    from loop_iter_acyc [OF acyc that inv0]
    have "dfs_inv store i ?s st1" "dfs_acyc i st1" by simp_all
    from loop_body_pushed [OF acyc this, of m] show ?thesis
      by (simp add: marked_def)
  qed
  show ?thesis
  proof (rule exI [of _ st], intro conjI)
    show "traverse store 0 (take i starts) init_state = Some (Inr st)"
      by (rule tr)
    show "\<exists>st'. loop_iter store (push_bit i 1) (work_bound store ?s) (st\<lparr>stack := [(?s, 0)]\<rparr>)
                = Inr st'
              \<and> stack st' = []
              \<and> dfs_loop store (push_bit i 1) (st\<lparr>stack := [(?s, 0)]\<rparr>) = Some (Inr st')"
      unfolding st0 push_bit_of_1 by (rule a)
    show "\<forall>n. distinct (?s # pushed store (push_bit i 1) n (st\<lparr>stack := [(?s, 0)]\<rparr>))"
      unfolding st0 push_bit_of_1 using b by blast
    show "\<forall>n m st1. loop_iter store (push_bit i 1) n (st\<lparr>stack := [(?s, 0)]\<rparr>) = Inr st1
           \<longrightarrow> (\<forall>e \<in> set (pushed store (push_bit i 1) m st1).
                  \<not> bit (seen_get (seen st1) e 0) i)"
      unfolding st0 push_bit_of_1 using c by blast
  qed
qed

lemma chain_store_work_B: "work_bound chain_store ''B'' = 4"
proof -
  have "auth_len chain_store ''B'' = 1" "auth_len chain_store ''C'' = 0"
    by (simp_all add: auth_len_def get_event_def chain_store_def mk_event_def)
  then show ?thesis
    by (simp add: work_bound_def chain_store_B)
qed

theorem bounded_retraversal_witness:
  "acyclic (auth_edge chain_store) \<and> (1::nat) < length [''A'', ''B'']
   \<and> work_bound chain_store ''B'' = 4
   \<and> (\<exists>st. traverse chain_store 0 (take 1 [''A'', ''B'']) init_state = Some (Inr st)
        \<and> (\<exists>st'. loop_iter chain_store (push_bit 1 1) 4 (st\<lparr>stack := [(''B'', 0)]\<rparr>) = Inr st'
                 \<and> stack st' = [])
        \<and> distinct (''B'' # pushed chain_store (push_bit 1 1) 4 (st\<lparr>stack := [(''B'', 0)]\<rparr>))
        \<and> pushed chain_store (push_bit 1 1) 4 (st\<lparr>stack := [(''B'', 0)]\<rparr>) = [''C'']
        \<and> \<not> bit (seen_get (seen (st\<lparr>stack := [(''B'', 0)]\<rparr>)) ''C'' 0) 1)"
proof -
  have l: "(1::nat) < length [''A'', ''B'']" by simp
  from bounded_retraversal [OF chain_store_acyclic chain_store_fetch l]
  obtain st where tr: "traverse chain_store 0 (take 1 [''A'', ''B'']) init_state = Some (Inr st)"
    and fin: "\<exists>st'. loop_iter chain_store (push_bit 1 1) (work_bound chain_store ([''A'', ''B''] ! 1))
                 (st\<lparr>stack := [([''A'', ''B''] ! 1, 0)]\<rparr>) = Inr st' \<and> stack st' = []"
    and dis: "\<forall>n. distinct ([''A'', ''B''] ! 1
                 # pushed chain_store (push_bit 1 1) n (st\<lparr>stack := [([''A'', ''B''] ! 1, 0)]\<rparr>))"
    and never: "\<forall>n m st1.
        loop_iter chain_store (push_bit 1 1) n (st\<lparr>stack := [([''A'', ''B''] ! 1, 0)]\<rparr>) = Inr st1
        \<longrightarrow> (\<forall>e \<in> set (pushed chain_store (push_bit 1 1) m st1).
               \<not> bit (seen_get (seen st1) e 0) 1)"
    by blast
  have nth: "[''A'', ''B''] ! 1 = ''B''" by simp
  from fin have fin': "\<exists>st'. loop_iter chain_store (push_bit 1 1) 4 (st\<lparr>stack := [(''B'', 0)]\<rparr>) = Inr st'
                 \<and> stack st' = []"
    unfolding nth chain_store_work_B .
  from dis have dis': "distinct (''B'' # pushed chain_store (push_bit 1 1) 4 (st\<lparr>stack := [(''B'', 0)]\<rparr>))"
    unfolding nth by (rule spec)
  have "traverse chain_store 0 (take 1 [''A'', ''B'']) init_state
        = Some (Inr \<lparr>seen = [(''C'', 1), (''B'', 1), (''A'', 1)],
                     edges = [(''B'', ''C''), (''A'', ''B'')], stack = []\<rparr>)"
    by code_simp
  with tr have st: "st = \<lparr>seen = [(''C'', 1), (''B'', 1), (''A'', 1)],
                     edges = [(''B'', ''C''), (''A'', ''B'')], stack = []\<rparr>"
    by simp
  have pu: "pushed chain_store (push_bit 1 1) 4 (st\<lparr>stack := [(''B'', 0)]\<rparr>) = [''C'']"
    unfolding st by code_simp
  have "loop_iter chain_store (push_bit 1 1) 0 (st\<lparr>stack := [([''A'', ''B''] ! 1, 0)]\<rparr>)
        = Inr (st\<lparr>stack := [(''B'', 0)]\<rparr>)"
    by simp
  with never have "\<forall>e \<in> set (pushed chain_store (push_bit 1 1) 4 (st\<lparr>stack := [(''B'', 0)]\<rparr>)).
               \<not> bit (seen_get (seen (st\<lparr>stack := [(''B'', 0)]\<rparr>)) e 0) 1"
    by blast
  then have nb: "\<not> bit (seen_get (seen (st\<lparr>stack := [(''B'', 0)]\<rparr>)) ''C'' 0) 1"
    unfolding pu by simp
  from tr fin' dis' pu nb chain_store_acyclic l chain_store_work_B show ?thesis by blast
qed

lemma loop_body_records_edge:
  assumes ne: "stack st \<noteq> []" and top: "last (stack st) = (eid, pindex)"
    and ev: "get_event store eid = Some event"
    and lt: "pindex < length (auth_event_ids event)"
    and step: "loop_body store b st = Inr st'"
  shows "set (edges st') = insert (eid, auth_event_ids event ! pindex) (set (edges st))"
    and "seen st' = seen st"
proof -
  from ne top have stk: "stack st = butlast (stack st) @ [(eid, pindex)]"
    by (metis append_butlast_last_id)
  from stk have "set (edges st') = insert (eid, auth_event_ids event ! pindex) (set (edges st))
                 \<and> seen st' = seen st"
    by (cases rule: loop_body_cases [where store = store and b = b])
      (use ev lt step in \<open>auto simp: set_edges_add\<close>)
  then show "set (edges st') = insert (eid, auth_event_ids event ! pindex) (set (edges st))"
    and "seen st' = seen st"
    by simp_all
qed

text \<open>
  C6. On an acyclic auth graph whose events can all be fetched, the traversal examines every
  auth edge of every event it visits, so the edge set it leaves holds exactly the pairs
  (event, direct auth event) whose event is in the auth chain of some start event, each pair
  once. A step that records an edge adds that pair to the edge set and leaves \<open>seen\<close> as it
  was.
\<close>

theorem edge_set_postcondition:
  assumes "acyclic (auth_edge store)"
    and "\<forall>s \<in> set starts. \<forall>e \<in> auth_chain store s. get_event store e \<noteq> None"
  shows "(\<exists>st. auth_chain_membership store starts = Some (Inr st)
            \<and> set (edges st)
                = {(e, p). (e, p) \<in> auth_edge store \<and> (\<exists>s \<in> set starts. e \<in> auth_chain store s)}
            \<and> distinct (edges st))
         \<and> (\<forall>b st st' eid pindex event.
               stack st \<noteq> [] \<and> last (stack st) = (eid, pindex)
               \<and> get_event store eid = Some event \<and> pindex < length (auth_event_ids event)
               \<and> loop_body store b st = Inr st'
               \<longrightarrow> set (edges st') = insert (eid, auth_event_ids event ! pindex) (set (edges st))
                   \<and> seen st' = seen st)"
proof (intro conjI allI impI)
  from traverse_summary [OF assms] obtain st
    where run: "auth_chain_membership store starts = Some (Inr st)"
      and sm: "summary store starts (length starts) st"
    by blast
  have "(\<exists>j<length starts. e \<in> auth_chain store (starts ! j))
        \<longleftrightarrow> (\<exists>s \<in> set starts. e \<in> auth_chain store s)" for e
    by (metis in_set_conv_nth)
  then have "set (edges st)
      = {(e, p). (e, p) \<in> auth_edge store \<and> (\<exists>s \<in> set starts. e \<in> auth_chain store s)}"
    using sm by (simp add: summary_def)
  moreover have "distinct (edges st)" using sm by (simp add: summary_def)
  ultimately show "\<exists>st. auth_chain_membership store starts = Some (Inr st)
            \<and> set (edges st)
                = {(e, p). (e, p) \<in> auth_edge store \<and> (\<exists>s \<in> set starts. e \<in> auth_chain store s)}
            \<and> distinct (edges st)"
    using run by blast
next
  fix b st st' eid pindex event
  assume a: "stack st \<noteq> [] \<and> last (stack st) = (eid, pindex)
               \<and> get_event store eid = Some event \<and> pindex < length (auth_event_ids event)
               \<and> loop_body store b st = Inr st'"
  then show "set (edges st') = insert (eid, auth_event_ids event ! pindex) (set (edges st))"
    using loop_body_records_edge(1) by blast
  from a show "seen st' = seen st"
    using loop_body_records_edge(2) by blast
qed

theorem edge_set_postcondition_witness:
  "acyclic (auth_edge chain_store)
   \<and> (\<exists>st. auth_chain_membership chain_store [''A'', ''B''] = Some (Inr st)
        \<and> edges st = [(''B'', ''C''), (''A'', ''B'')]
        \<and> set (edges st)
            = {(e, p). (e, p) \<in> auth_edge chain_store
                 \<and> (\<exists>s \<in> set [''A'', ''B'']. e \<in> auth_chain chain_store s)}
        \<and> distinct (edges st))
   \<and> loop_body chain_store 2 \<lparr>seen = [(''C'', 1)], edges = [], stack = [(''B'', 0)]\<rparr>
       = Inr \<lparr>seen = [(''C'', 1)], edges = [(''B'', ''C'')], stack = [(''B'', 0), (''C'', 0)]\<rparr>
   \<and> set [(''B'', ''C'')] = insert (''B'', ''C'') (set [])
   \<and> seen \<lparr>seen = [(''C'', 1)], edges = [(''B'', ''C'')], stack = [(''B'', 0), (''C'', 0)]\<rparr>
       = [(''C'', 1 :: int)]"
proof -
  note th = edge_set_postcondition [OF chain_store_acyclic chain_store_fetch]
  have run: "auth_chain_membership chain_store [''A'', ''B'']
     = Some (Inr \<lparr>seen = [(''C'', 3), (''B'', 3), (''A'', 1)],
                  edges = [(''B'', ''C''), (''A'', ''B'')], stack = []\<rparr>)"
    by code_simp
  from th run have one: "\<exists>st. auth_chain_membership chain_store [''A'', ''B''] = Some (Inr st)
        \<and> edges st = [(''B'', ''C''), (''A'', ''B'')]
        \<and> set (edges st)
            = {(e, p). (e, p) \<in> auth_edge chain_store
                 \<and> (\<exists>s \<in> set [''A'', ''B'']. e \<in> auth_chain chain_store s)}
        \<and> distinct (edges st)"
    by auto
  let ?st = "\<lparr>seen = [(''C'', 1)], edges = [], stack = [(''B'', 0)]\<rparr>"
  let ?st' = "\<lparr>seen = [(''C'', 1)], edges = [(''B'', ''C'')], stack = [(''B'', 0), (''C'', 0)]\<rparr>"
  have step: "loop_body chain_store 2 ?st = Inr ?st'"
    by code_simp
  have pre: "stack ?st \<noteq> [] \<and> last (stack ?st) = (''B'', 0)
       \<and> get_event chain_store ''B'' = Some (mk_event ''B'' [''C''])
       \<and> 0 < length (auth_event_ids (mk_event ''B'' [''C'']))"
    by (simp add: get_event_def chain_store_def mk_event_def)
  from th pre step
  have "set (edges ?st') = insert (''B'', auth_event_ids (mk_event ''B'' [''C'']) ! 0) (set (edges ?st))
        \<and> seen ?st' = seen ?st"
    by blast
  then have two: "set [(''B'', ''C'')] = insert (''B'', ''C'') (set [])
      \<and> seen ?st' = [(''C'', 1 :: int)]"
    by (simp add: mk_event_def)
  from one two step chain_store_acyclic show ?thesis by blast
qed

text \<open>
  C8. With the datastore's token getter as the spec describes it, the current position that
  the stream exposes is a natural number, is the position of one of the instances that have
  acknowledged, and is at most the position of each of them, whatever instance name the
  caller passes: a consumer resuming from it is not ahead of any acknowledged writer.
\<close>

theorem multi_writer_token_merge:
  assumes "positions \<noteq> []"
  shows "(\<forall>(w, p) \<in> set positions.
            current_token (UnPartialStatedRoomStream_init name
              (get_un_partial_stated_rooms_token positions) rows) inst \<le> p)
         \<and> (\<exists>w. (w, current_token (UnPartialStatedRoomStream_init name
              (get_un_partial_stated_rooms_token positions) rows) inst) \<in> set positions)"
proof -
  let ?S = "set (map snd positions)"
  have tok: "current_token (UnPartialStatedRoomStream_init name
              (get_un_partial_stated_rooms_token positions) rows) inst = Min ?S"
    by (simp add: UnPartialStatedRoomStream_init_def current_token_without_instance_def
        get_un_partial_stated_rooms_token_def)
  have fin: "finite ?S" and ne: "?S \<noteq> {}" using assms by simp_all
  have mem: "p \<in> ?S" if "(w, p) \<in> set positions" for w p
    using that by force
  have "\<forall>(w, p) \<in> set positions. Min ?S \<le> p"
    using fin mem by (auto intro: Min_le)
  moreover have "Min ?S \<in> ?S" using fin ne by (rule Min_in)
  then have "\<exists>w. (w, Min ?S) \<in> set positions" by auto
  ultimately show ?thesis unfolding tok by blast
qed

theorem multi_writer_token_merge_witness:
  "[(''worker1'', 5), (''worker2'', 3 :: nat)] \<noteq> []
   \<and> current_token (UnPartialStatedRoomStream_init ''master''
        (get_un_partial_stated_rooms_token [(''worker1'', 5), (''worker2'', 3)]) ()) ''worker1'' = 3
   \<and> (3 :: nat) \<le> 5 \<and> (3 :: nat) \<le> 3"
proof -
  let ?ps = "[(''worker1'', 5), (''worker2'', 3 :: nat)]"
  have ne: "?ps \<noteq> []" by simp
  have tok: "current_token (UnPartialStatedRoomStream_init ''master''
        (get_un_partial_stated_rooms_token ?ps) ()) ''worker1'' = 3"
    by (simp add: UnPartialStatedRoomStream_init_def current_token_without_instance_def
        get_un_partial_stated_rooms_token_def)
  from multi_writer_token_merge [OF ne, of "''master''" "()" "''worker1''"]
  have "\<forall>(w, p) \<in> set ?ps. (3 :: nat) \<le> p"
    unfolding tok by blast
  then have "(3 :: nat) \<le> 5 \<and> (3 :: nat) \<le> 3" by simp
  with ne tok show ?thesis by blast
qed

text \<open>
  C7. Every row of the un-partial-stated stream carries exactly one field, the room
  identifier: a row is determined by its \<open>room_id\<close> and every room identifier gives a row.
  The name of the stream is the fixed identifier \<open>un_partial_stated_room\<close>.
\<close>

theorem stream_row_and_name:
  "UnPartialStatedRoomStreamRow (room_id row) = row
   \<and> room_id (UnPartialStatedRoomStreamRow r) = r
   \<and> NAME = ''un_partial_stated_room''"
  by (simp add: NAME_def)

end
